theory Spec2Isabelle
  imports Complex_Main "HOL-Library.AList"
begin

section \<open>Data model\<close>

text \<open>
  The errors the sampler and the pruner can end with. The first five are the Python and
  numpy exceptions the code can raise; \<open>DegenerateDistributionError\<close> is the error the
  specification names.
\<close>

datatype error =
    AssertionError
  | ZeroDivisionError
  | ValueError
  | KeyError
  | IndexError
  | DegenerateDistributionError

datatype semiring = Real | Tropical | Boolean

text \<open>
  Modelled from the spec: the symbol class of \<open>rrnn.symbol\<close> is not part of the sources.
  A symbol is an opaque token of the alphabet or one of the two reserved sentinels, the
  empty-prefix marker \<open>\<epsilon>\<close> and the end-of-sequence marker \<open>EOS\<close>.
\<close>

datatype 'a sym = Sym 'a | Eps | EOS

text \<open>
  Modelled from the spec: the automaton class of \<open>rrnn.fsa\<close> is not part of the sources.
  An automaton stores its states \<open>Q\<close>, its alphabet \<open>Sigma\<close>, its arcs \<open>delta\<close> as
  (source, label, destination, weight), its initial weights \<open>lam\<close> and its final weights
  \<open>rho\<close>; \<open>is_fst\<close> says that labels are input/output pairs. Weights are Python floats, idealised as real numbers.
\<close>

record ('l, 'q) fsa =
  R :: semiring
  is_fst :: bool
  Q :: "'q list"
  Sigma :: "'l list"
  delta :: "('q \<times> 'l \<times> 'q \<times> real) list"
  lam :: "('q \<times> real) list"
  rho :: "('q \<times> real) list"

text \<open>\<open>A.I\<close> and \<open>A.F\<close> enumerate the stored initial and final weights.\<close>

definition I :: "('l, 'q) fsa \<Rightarrow> ('q \<times> real) list" where
  "I A = lam A"

definition F :: "('l, 'q) fsa \<Rightarrow> ('q \<times> real) list" where
  "F A = rho A"

text \<open>\<open>A.\<rho>[q]\<close>: the final weight of \<open>q\<close>, zero when \<open>q\<close> is not final.\<close>

definition rho_at :: "('l, 'q) fsa \<Rightarrow> 'q \<Rightarrow> real" where
  "rho_at A q = (case map_of (rho A) q of None \<Rightarrow> 0 | Some w \<Rightarrow> w)"

text \<open>\<open>A.arcs(q)\<close>: the arcs leaving \<open>q\<close> as (label, destination, weight).\<close>

definition arcs :: "('l, 'q) fsa \<Rightarrow> 'q \<Rightarrow> ('l \<times> 'q \<times> real) list" where
  "arcs A q = map snd (filter (\<lambda>t. fst t = q) (delta A))"

section \<open>The sampler\<close>

subsection \<open>Python values and dictionaries\<close>

text \<open>
  Modelled from the spec: the classes \<open>State\<close> and \<open>Sym\<close> are not part of the sources.
  States and symbols are opaque objects, so an object of either class is never equal to
  the integer \<open>0\<close> that the plain sampler uses in its stop pair \<open>(0, 0)\<close>. The variables
  \<open>a\<close> and \<open>q\<close> of the plain sampler hold either an object or that integer.
\<close>

datatype 'l symval = SymObj 'l | SymZero

datatype 'q stateval = StateObj 'q | StateZero

text \<open>
  A Python dictionary, in insertion order: a key met again keeps its position and takes
  the new value, a new key goes to the end.
\<close>

definition dict_of :: "('k \<times> 'v) list \<Rightarrow> ('k \<times> 'v) list" where
  "dict_of kvs = fold (\<lambda>kv d. AList.update (fst kv) (snd kv) d) kvs []"

definition bindE :: "error + 'a \<Rightarrow> ('a \<Rightarrow> error + 'b) \<Rightarrow> error + 'b" where
  "bindE m f = (case m of Inl e \<Rightarrow> Inl e | Inr x \<Rightarrow> f x)"

text \<open>A list comprehension whose body can raise: the first error ends it.\<close>

fun mapE :: "('a \<Rightarrow> error + 'b) \<Rightarrow> 'a list \<Rightarrow> error + 'b list" where
  "mapE f [] = Inr []"
| "mapE f (x # xs) = bindE (f x) (\<lambda>y. bindE (mapE f xs) (\<lambda>ys. Inr (y # ys)))"

text \<open>Python's \<open>x / z\<close> on floats raises on a zero divisor.\<close>

definition divE :: "real \<Rightarrow> real \<Rightarrow> error + real" where
  "divE x z = (if z = 0 then Inl ZeroDivisionError else Inr (x / z))"

subsection \<open>Temperature scaling and the weighted draw\<close>

text \<open>
  \<open>_w\<close>: \<open>float(w) ** (1 / self.T)\<close>. Python raises ZeroDivisionError for \<open>T = 0\<close> and
  for a zero base with a negative exponent. Weights are non-negative in the data model;
  on a negative weight \<open>powr\<close> is not Python's power.
\<close>

definition sampler_w :: "real \<Rightarrow> real \<Rightarrow> error + real" where
  "sampler_w tau w =
     (if tau = 0 then Inl ZeroDivisionError
      else if w = 0 \<and> 1 / tau < 0 then Inl ZeroDivisionError
      else Inr (w powr (1 / tau)))"

text \<open>
  \<open>_draw\<close>: the probabilities and the candidates of the dictionary, in order, and
  \<open>rng.choice(len(choices), p=p)\<close>. The generator is numpy's: \<open>choice\<close> is a parameter,
  taking the generator's state and the probabilities to an index and the next state.
  numpy refuses an empty population, a negative probability and probabilities that do
  not sum to one (here exactly, on real numbers) with ValueError.
\<close>

definition draw ::
  "('g \<Rightarrow> real list \<Rightarrow> nat \<times> 'g) \<Rightarrow> 'g \<Rightarrow> ('k \<times> real) list \<Rightarrow> error + ('k \<times> 'g)" where
  "draw choice g options =
     (let p = map snd options; choices = map fst options in
      if choices = [] \<or> (\<exists>x \<in> set p. x < 0) \<or> sum_list p \<noteq> 1 then Inl ValueError
      else (case choice g p of (i, g') \<Rightarrow>
              if i < length choices then Inr (choices ! i, g') else Inl IndexError))"

subsection \<open>Plain ancestral sampling\<close>

text \<open>The normalised initial distribution: lines 74 and 75 of the sampler.\<close>

definition initial_options :: "('l, 'q) fsa \<Rightarrow> real \<Rightarrow> error + ('q \<times> real) list" where
  "initial_options M tau =
     bindE (mapE (\<lambda>(p, w). sampler_w tau w) (I M)) (\<lambda>ws.
       let Z = sum_list ws in
       bindE (mapE (\<lambda>(p, w). bindE (sampler_w tau w) (\<lambda>x.
                      bindE (divE x Z) (\<lambda>r. Inr (p, r)))) (I M)) (\<lambda>kvs.
         Inr (dict_of kvs)))"

text \<open>The distribution of one step at state \<open>q\<close>: lines 78 to 80.\<close>

definition ancestral_options ::
  "('l, 'q) fsa \<Rightarrow> real \<Rightarrow> 'q \<Rightarrow> error + (('l symval \<times> 'q stateval) \<times> real) list" where
  "ancestral_options M tau q =
     bindE (mapE (\<lambda>(a, q', w). sampler_w tau w) (arcs M q)) (\<lambda>ws.
     bindE (sampler_w tau (rho_at M q)) (\<lambda>r.
       let Z = sum_list ws + r in
       bindE (mapE (\<lambda>(a, q', w). bindE (sampler_w tau w) (\<lambda>x.
                      bindE (divE x Z) (\<lambda>p. Inr ((SymObj a, StateObj q'), p)))) (arcs M q)) (\<lambda>kvs.
       bindE (sampler_w tau (rho_at M q)) (\<lambda>r'.
       bindE (divE r' Z) (\<lambda>p0.
         Inr (AList.update (SymZero, StateZero) p0 (dict_of kvs)))))))"

text \<open>
  One pass of the body of \<open>while q != 0\<close>: the draw, the assignment \<open>(a, q) = ...\<close> and
  the guarded \<open>y.append(a)\<close>.
\<close>

definition ancestral_step ::
  "('g \<Rightarrow> real list \<Rightarrow> nat \<times> 'g) \<Rightarrow> ('l, 'q) fsa \<Rightarrow> real \<Rightarrow> 'g \<Rightarrow> 'q \<Rightarrow> 'l list
     \<Rightarrow> error + ('q stateval \<times> 'l list \<times> 'g)" where
  "ancestral_step choice M tau g q y =
     bindE (ancestral_options M tau q) (\<lambda>options.
     bindE (draw choice g options) (\<lambda>((a, q'), g').
       Inr (q', (case a of SymZero \<Rightarrow> y | SymObj s \<Rightarrow> y @ [s]), g')))"

text \<open>The loop \<open>while q != 0\<close>; it need not end, so the result is optional.\<close>

partial_function (option) ancestral_loop ::
  "('g \<Rightarrow> real list \<Rightarrow> nat \<times> 'g) \<Rightarrow> ('l, 'q) fsa \<Rightarrow> real \<Rightarrow> 'g \<Rightarrow> 'q stateval \<Rightarrow> 'l list
     \<Rightarrow> (error + ('l list \<times> 'g)) option" where
  "ancestral_loop choice M tau g q y =
     (case q of
        StateZero \<Rightarrow> Some (Inr (y, g))
      | StateObj s \<Rightarrow>
          (case ancestral_step choice M tau g s y of
             Inl e \<Rightarrow> Some (Inl e)
           | Inr (q', y', g') \<Rightarrow> ancestral_loop choice M tau g' q' y'))"

text \<open>A sample is a sequence of symbols or, with \<open>to_string\<close>, their concatenation.\<close>

datatype 'l sample = Seq "'l list" | Str string

definition render :: "('l \<Rightarrow> string) \<Rightarrow> bool \<Rightarrow> 'l list \<Rightarrow> 'l sample" where
  "render str to_string y = (if \<not> to_string then Seq y else Str (concat (map str y)))"

definition ancestral ::
  "('g \<Rightarrow> real list \<Rightarrow> nat \<times> 'g) \<Rightarrow> ('l \<Rightarrow> string) \<Rightarrow> ('l, 'q) fsa \<Rightarrow> real \<Rightarrow> 'g \<Rightarrow> bool
     \<Rightarrow> (error + ('l sample \<times> 'g)) option" where
  "ancestral choice str M tau g to_string =
     (case bindE (initial_options M tau) (draw choice g) of
        Inl e \<Rightarrow> Some (Inl e)
      | Inr (q, g') \<Rightarrow>
          (case ancestral_loop choice M tau g' (StateObj q) [] of
             None \<Rightarrow> None
           | Some (Inl e) \<Rightarrow> Some (Inl e)
           | Some (Inr (y, g'')) \<Rightarrow> Some (Inr (render str to_string y, g''))))"

subsection \<open>Autoregressive sampling\<close>

text \<open>\<open>d[k]\<close> raises KeyError on a missing key.\<close>

definition dict_get :: "('k \<times> 'v) list \<Rightarrow> 'k \<Rightarrow> error + 'v" where
  "dict_get d k = (case map_of d k of None \<Rightarrow> Inl KeyError | Some v \<Rightarrow> Inr v)"

text \<open>\<open>sum(self._w(w) for c, q, w in ...)\<close> over a selection of arcs.\<close>

definition mass :: "real \<Rightarrow> ('l \<times> 'q \<times> real) list \<Rightarrow> error + real" where
  "mass tau sel = bindE (mapE (\<lambda>(c, q', w). sampler_w tau w) sel) (\<lambda>ws. Inr (sum_list ws))"

text \<open>
  Lines 119 to 145: from the drawn state \<open>q\<close>, the next-symbol distribution \<open>pa\<close> and
  the belief map \<open>pq_a\<close> of the next iteration.
\<close>

definition lm_step ::
  "('a sym, 'q) fsa \<Rightarrow> real \<Rightarrow> 'q
     \<Rightarrow> error + (('a sym \<times> real) list \<times> ('a sym \<times> ('q \<times> real) list) list)" where
  "lm_step M tau q =
     bindE (mass tau (arcs M q)) (\<lambda>s.
     bindE (sampler_w tau (rho_at M q)) (\<lambda>r.
       let Zq = s + r in
       bindE (mapE (\<lambda>b. bindE (mass tau (filter (\<lambda>(c, q', w). c = b) (arcs M q)))
                          (\<lambda>m. Inr (b, m))) (Sigma M)) (\<lambda>zs.
       let Zqa = dict_of zs in
       bindE (mapE (\<lambda>b. bindE (mass tau (filter (\<lambda>(c, q', w). c = b) (arcs M q))) (\<lambda>m.
                          bindE (divE m Zq) (\<lambda>p. Inr (b, p)))) (Sigma M)) (\<lambda>ps.
       bindE (sampler_w tau (rho_at M q)) (\<lambda>r'.
       bindE (divE r' Zq) (\<lambda>pe.
       let pa = AList.update EOS pe (dict_of ps) in
       bindE (mapE (\<lambda>b. bindE (dict_get Zqa b) (\<lambda>z.
                 if z > 0 then
                   bindE (mapE (\<lambda>q'.
                            bindE (mass tau (filter (\<lambda>(c, q'', w). c = b \<and> q' = q'') (arcs M q))) (\<lambda>m.
                            bindE (dict_get Zqa b) (\<lambda>z'.
                            bindE (divE m z') (\<lambda>p. Inr (q', p))))) (Q M))
                     (\<lambda>inner. Inr [(b, dict_of inner)])
                 else Inr [])) (Sigma M)) (\<lambda>outer.
         Inr (pa, dict_of (concat outer)))))))))"

text \<open>
  The loop \<open>while a != EOS\<close>. \<open>transform\<close> is the caller's hook, a function of the
  sequence so far and the next-symbol distribution.
\<close>

partial_function (option) lm_loop ::
  "('g \<Rightarrow> real list \<Rightarrow> nat \<times> 'g) \<Rightarrow> ('a sym list \<Rightarrow> ('a sym \<times> real) list \<Rightarrow> ('a sym \<times> real) list)
     \<Rightarrow> ('a sym, 'q) fsa \<Rightarrow> real \<Rightarrow> 'g \<Rightarrow> ('a sym \<times> ('q \<times> real) list) list \<Rightarrow> 'a sym
     \<Rightarrow> 'a sym list \<Rightarrow> (error + ('a sym list \<times> 'g)) option" where
  "lm_loop choice transform M tau g pq_a a y =
     (if a = EOS then Some (Inr (y, g))
      else (case dict_get pq_a a of
              Inl e \<Rightarrow> Some (Inl e)
            | Inr belief \<Rightarrow>
      (case draw choice g belief of
              Inl e \<Rightarrow> Some (Inl e)
            | Inr (q, g1) \<Rightarrow>
      (case lm_step M tau q of
              Inl e \<Rightarrow> Some (Inl e)
            | Inr (pa, pq_a') \<Rightarrow>
      (case draw choice g1 (transform y pa) of
              Inl e \<Rightarrow> Some (Inl e)
            | Inr (a', g2) \<Rightarrow> lm_loop choice transform M tau g2 pq_a' a' (y @ [a']))))))"

definition ancestral_lm ::
  "('g \<Rightarrow> real list \<Rightarrow> nat \<times> 'g) \<Rightarrow> ('a sym \<Rightarrow> string) \<Rightarrow> ('a sym, 'q) fsa \<Rightarrow> real \<Rightarrow> 'g \<Rightarrow> bool
     \<Rightarrow> ('a sym list \<Rightarrow> ('a sym \<times> real) list \<Rightarrow> ('a sym \<times> real) list)
     \<Rightarrow> (error + ('a sym sample \<times> 'g)) option" where
  "ancestral_lm choice str M tau g to_string transform =
     (case initial_options M tau of
        Inl e \<Rightarrow> Some (Inl e)
      | Inr belief \<Rightarrow>
          (case lm_loop choice transform M tau g [(Eps, belief)] Eps [Eps] of
             None \<Rightarrow> None
           | Some (Inl e) \<Rightarrow> Some (Inl e)
           | Some (Inr (y, g')) \<Rightarrow> Some (Inr (render str to_string y, g'))))"

subsection \<open>The sampler object\<close>

record ('l, 'q, 'g) sampler =
  T :: real
  A :: "('l, 'q) fsa"
  rng :: 'g

text \<open>
  \<open>__init__\<close>. \<open>push\<close> and \<open>probabilistic\<close> belong to the automaton class and are
  parameters. \<open>np.random.default_rng(seed)\<close> is a function \<open>seeded\<close> of an integer seed;
  without a seed the generator comes from the system's entropy, \<open>entropy\<close>.
\<close>

definition sampler_init ::
  "(('l, 'q) fsa \<Rightarrow> ('l, 'q) fsa) \<Rightarrow> (('l, 'q) fsa \<Rightarrow> bool) \<Rightarrow> (int \<Rightarrow> 'g) \<Rightarrow> 'g
     \<Rightarrow> ('l, 'q) fsa \<Rightarrow> real \<Rightarrow> int option \<Rightarrow> error + ('l, 'q, 'g) sampler" where
  "sampler_init push is_probabilistic seeded entropy M tau seed =
     (if R M \<noteq> Real then Inl AssertionError
      else Inr \<lparr>T = tau,
                A = (if \<not> is_probabilistic M then push M else M),
                rng = (case seed of None \<Rightarrow> entropy | Some s \<Rightarrow> seeded s)\<rparr>)"

text \<open>\<open>[f() for _ in trange(K)]\<close>: \<open>K\<close> runs, one after the other, on one generator.\<close>

fun repeat ::
  "nat \<Rightarrow> ('g \<Rightarrow> (error + ('x \<times> 'g)) option) \<Rightarrow> 'g \<Rightarrow> (error + ('x list \<times> 'g)) option" where
  "repeat 0 f g = Some (Inr ([], g))"
| "repeat (Suc k) f g =
     (case f g of
        None \<Rightarrow> None
      | Some (Inl e) \<Rightarrow> Some (Inl e)
      | Some (Inr (x, g')) \<Rightarrow>
          (case repeat k f g' of
             None \<Rightarrow> None
           | Some (Inl e) \<Rightarrow> Some (Inl e)
           | Some (Inr (xs, g'')) \<Rightarrow> Some (Inr (x # xs, g''))))"

definition sample ::
  "('g \<Rightarrow> real list \<Rightarrow> nat \<times> 'g) \<Rightarrow> ('a sym \<Rightarrow> string) \<Rightarrow> ('a sym, 'q, 'g) sampler \<Rightarrow> nat \<Rightarrow> bool
     \<Rightarrow> ('a sym list \<Rightarrow> ('a sym \<times> real) list \<Rightarrow> ('a sym \<times> real) list) \<Rightarrow> bool
     \<Rightarrow> (error + ('a sym sample list \<times> 'g)) option" where
  "sample choice str S K to_string transform lm =
     (if lm then repeat K (\<lambda>g. ancestral_lm choice str (A S) (T S) g to_string transform) (rng S)
      else repeat K (\<lambda>g. ancestral choice str (A S) (T S) g to_string) (rng S))"

section \<open>The pruner\<close>

text \<open>
  Modelled from the spec: the automaton's mutation interface (\<open>spawn\<close>, \<open>add_arc\<close>,
  \<open>set_I\<close>, \<open>set_F\<close>) is not part of the sources. \<open>spawn\<close> creates an empty automaton
  of the same kind; \<open>add_arc\<close> stores one arc; \<open>set_I\<close> and \<open>set_F\<close> set one initial or
  final weight. A state or label belongs to the automaton once an arc or a weight
  mentions it.
\<close>

definition spawn :: "('l, 'q) fsa \<Rightarrow> ('l, 'q) fsa" where
  "spawn M = \<lparr>R = R M, is_fst = is_fst M, Q = [], Sigma = [], delta = [], lam = [], rho = []\<rparr>"

definition add_arc :: "('l, 'q) fsa \<Rightarrow> 'q \<Rightarrow> 'l \<Rightarrow> 'q \<Rightarrow> real \<Rightarrow> ('l, 'q) fsa" where
  "add_arc N i a j w =
     N\<lparr>Q := List.insert j (List.insert i (Q N)),
       Sigma := List.insert a (Sigma N),
       delta := delta N @ [(i, a, j, w)]\<rparr>"

definition set_I :: "('l, 'q) fsa \<Rightarrow> 'q \<Rightarrow> real \<Rightarrow> ('l, 'q) fsa" where
  "set_I N q w = N\<lparr>Q := List.insert q (Q N), lam := AList.update q w (lam N)\<rparr>"

definition set_F :: "('l, 'q) fsa \<Rightarrow> 'q \<Rightarrow> real \<Rightarrow> ('l, 'q) fsa" where
  "set_F N q w = N\<lparr>Q := List.insert q (Q N), rho := AList.update q w (rho N)\<rparr>"

text \<open>
  Modelled from the spec: \<open>accessible\<close> and \<open>coaccessible\<close> are not part of the sources.
  The accessible states are those reached by following arcs forward from an initial
  state; the co-accessible states are those from which a final state, one with
  \<open>\<rho>(q) > 0\<close>, is reached, that is the states reached from the final states on the
  reversed arcs. Both are computed by adding the neighbours of the states found so far,
  once for every stored arc: a round that finds nothing new ends the search, and every
  other round uses up the destination of one more arc.
\<close>

fun closure :: "('q \<Rightarrow> 'q list) \<Rightarrow> nat \<Rightarrow> 'q list \<Rightarrow> 'q list" where
  "closure nxt 0 S = S"
| "closure nxt (Suc n) S = closure nxt n (List.union S (concat (map nxt S)))"

definition successors :: "('l, 'q) fsa \<Rightarrow> 'q \<Rightarrow> 'q list" where
  "successors M q = map (\<lambda>(a, j, w). j) (arcs M q)"

definition predecessors :: "('l, 'q) fsa \<Rightarrow> 'q \<Rightarrow> 'q list" where
  "predecessors M q = map fst (filter (\<lambda>(i, a, j, w). j = q) (delta M))"

definition finals :: "('l, 'q) fsa \<Rightarrow> 'q list" where
  "finals M = filter (\<lambda>q. rho_at M q > 0) (map fst (F M))"

definition accessible :: "('l, 'q) fsa \<Rightarrow> 'q list" where
  "accessible M = closure (successors M) (length (delta M)) (remdups (map fst (I M)))"

definition coaccessible :: "('l, 'q) fsa \<Rightarrow> 'q list" where
  "coaccessible M = closure (predecessors M) (length (delta M)) (remdups (finals M))"

text \<open>
  \<open>_add_trim_arcs\<close>. The branch for a transducer unpacks the label pair \<open>(a, b)\<close> and
  passes both components on; the label \<open>l\<close> stands for the pair there.
\<close>

definition add_trim_arcs :: "('l, 'q) fsa \<Rightarrow> ('l, 'q) fsa \<Rightarrow> 'q list \<Rightarrow> ('l, 'q) fsa" where
  "add_trim_arcs M N AC =
     fold (\<lambda>i N1.
       if is_fst M then
         fold (\<lambda>(l, j, w) N2. if j \<in> set AC then add_arc N2 i l j w else N2) (arcs M i) N1
       else
         fold (\<lambda>(a, j, w) N2. if j \<in> set AC then add_arc N2 i a j w else N2) (arcs M i) N1)
       AC N"

text \<open>\<open>trim\<close>. \<open>AC\<close> is the intersection of the two sets, in the order of the first.\<close>

definition retained :: "('l, 'q) fsa \<Rightarrow> 'q list" where
  "retained M = filter (\<lambda>q. q \<in> set (coaccessible M)) (accessible M)"

definition trim :: "('l, 'q) fsa \<Rightarrow> ('l, 'q) fsa" where
  "trim M =
     (let AC = retained M;
          N0 = spawn M;
          N1 = add_trim_arcs M N0 AC;
          N2 = fold (\<lambda>(q, w) N. if q \<in> set AC then set_I N q w else N) (I M) N1;
          N3 = fold (\<lambda>(q, w) N. if q \<in> set AC then set_F N q w else N) (F M) N2
      in N3)"

section \<open>Concrete automata\<close>

text \<open>A generator that always answers with the first candidate.\<close>

definition choice_first :: "unit \<Rightarrow> real list \<Rightarrow> nat \<times> unit" where
  "choice_first g p = (0, g)"

text \<open>One state, initial and final with weight one, and no arc.\<close>

definition M_stop :: "(nat sym, nat) fsa" where
  "M_stop = \<lparr>R = Real, is_fst = False, Q = [0], Sigma = [], delta = [],
              lam = [(0, 1)], rho = [(0, 1)]\<rparr>"

text \<open>
  Two states: state 1 is initial, stops with weight 1/2 and has one arc of weight 1/2
  to state 0, which stops with weight 1.
\<close>

definition M_two :: "(nat sym, nat) fsa" where
  "M_two = \<lparr>R = Real, is_fst = False, Q = [0, 1], Sigma = [Sym 0],
             delta = [(1, Sym 0, 0, 1 / 2)], lam = [(1, 1)], rho = [(0, 1), (1, 1 / 2)]\<rparr>"

text \<open>One initial state with no arc and no final weight: nothing to normalise over.\<close>

definition M_dead :: "(nat sym, nat) fsa" where
  "M_dead = \<lparr>R = Real, is_fst = False, Q = [0], Sigma = [], delta = [],
              lam = [(0, 1)], rho = []\<rparr>"

section \<open>Notions of the statements\<close>

text \<open>
  What the loop of the autoregressive sampler does to the sequence: a result is the
  sequence it started from, followed by the symbols drawn, the last of them \<open>EOS\<close>.
\<close>

definition extends :: "'a sym \<Rightarrow> 'a sym list \<Rightarrow> (error + ('a sym list \<times> 'g)) \<Rightarrow> bool" where
  "extends a y res = (\<forall>y' g'. res = Inr (y', g') \<longrightarrow>
           (\<exists>zs. y' = y @ zs \<and> (if a = EOS then zs = [] else zs \<noteq> [] \<and> last zs = EOS)))"

text \<open>
  One run of a test of reproducibility: construct a sampler, then call \<open>sample\<close>.
\<close>

definition sample_run ::
  "(('a sym, 'q) fsa \<Rightarrow> ('a sym, 'q) fsa) \<Rightarrow> (('a sym, 'q) fsa \<Rightarrow> bool) \<Rightarrow> (int \<Rightarrow> 'g) \<Rightarrow> 'g
     \<Rightarrow> ('g \<Rightarrow> real list \<Rightarrow> nat \<times> 'g) \<Rightarrow> ('a sym \<Rightarrow> string) \<Rightarrow> ('a sym, 'q) fsa \<Rightarrow> real
     \<Rightarrow> int option \<Rightarrow> nat \<Rightarrow> bool
     \<Rightarrow> ('a sym list \<Rightarrow> ('a sym \<times> real) list \<Rightarrow> ('a sym \<times> real) list) \<Rightarrow> bool
     \<Rightarrow> (error + ('a sym sample list \<times> 'g)) option" where
  "sample_run push is_probabilistic seeded entropy choice str M tau seed K to_string transform lm =
     (case sampler_init push is_probabilistic seeded entropy M tau seed of
        Inl e \<Rightarrow> Some (Inl e)
      | Inr S \<Rightarrow> sample choice str S K to_string transform lm)"

text \<open>
  Two runs have two generator objects. \<open>sim\<close> relates the states of the two that stand
  at the same point of the same stream, and \<open>same_stream\<close> says what a seeded generator
  guarantees: generators at the same point answer a draw with the same index and move
  to the same point. Two outcomes of a call are the same when both do not return, or
  both raise the same error, or both return the same value and leave the generators
  at the same point.
\<close>

definition same_stream ::
  "('g \<Rightarrow> real list \<Rightarrow> nat \<times> 'g) \<Rightarrow> ('h \<Rightarrow> real list \<Rightarrow> nat \<times> 'h) \<Rightarrow> ('g \<Rightarrow> 'h \<Rightarrow> bool) \<Rightarrow> bool" where
  "same_stream choice1 choice2 sim =
     (\<forall>g1 g2 p. sim g1 g2 \<longrightarrow>
        fst (choice1 g1 p) = fst (choice2 g2 p) \<and> sim (snd (choice1 g1 p)) (snd (choice2 g2 p)))"

definition same_result :: "('g \<Rightarrow> 'h \<Rightarrow> bool) \<Rightarrow> error + ('x \<times> 'g) \<Rightarrow> error + ('x \<times> 'h) \<Rightarrow> bool" where
  "same_result sim r1 r2 =
     (case r1 of
        Inl e \<Rightarrow> r2 = Inl e
      | Inr (x, g1) \<Rightarrow> (\<exists>g2. r2 = Inr (x, g2) \<and> sim g1 g2))"

definition same_outcome ::
  "('g \<Rightarrow> 'h \<Rightarrow> bool) \<Rightarrow> (error + ('x \<times> 'g)) option \<Rightarrow> (error + ('x \<times> 'h)) option \<Rightarrow> bool" where
  "same_outcome sim o1 o2 =
     (case o1 of
        None \<Rightarrow> o2 = None
      | Some r1 \<Rightarrow> (\<exists>r2. o2 = Some r2 \<and> same_result sim r1 r2))"

text \<open>A generator that answers with the first candidate and counts its draws.\<close>

definition choice_count :: "nat \<Rightarrow> real list \<Rightarrow> nat \<times> nat" where
  "choice_count g p = (0, Suc g)"

text \<open>
  The effective weight of the specification, \<open>w^(1/T)\<close>, its sum over a selection of
  arcs, and the two normalisers: \<open>Z_init\<close> over the initial weights and \<open>Z_at\<close> over
  the arcs leaving a state together with the state's final weight.
\<close>

definition scaled :: "real \<Rightarrow> real \<Rightarrow> real" where
  "scaled tau w = w powr (1 / tau)"

definition scaled_mass :: "real \<Rightarrow> ('l \<times> 'q \<times> real) list \<Rightarrow> real" where
  "scaled_mass tau sel = sum_list (map (\<lambda>(a, q', w). scaled tau w) sel)"

definition Z_init :: "('l, 'q) fsa \<Rightarrow> real \<Rightarrow> real" where
  "Z_init M tau = sum_list (map (\<lambda>(p, w). scaled tau w) (I M))"

definition Z_at :: "('l, 'q) fsa \<Rightarrow> real \<Rightarrow> 'q \<Rightarrow> real" where
  "Z_at M tau q = scaled_mass tau (arcs M q) + scaled tau (rho_at M q)"

text \<open>
  The masses of the autoregressive step: \<open>symbol_mass\<close> is \<open>Z_{q,b}\<close>, the scaled weight
  of the arcs leaving \<open>q\<close> with label \<open>b\<close>, and \<open>arc_mass\<close> the part of it that lands
  in \<open>q'\<close>.
\<close>

definition symbol_mass :: "('l, 'q) fsa \<Rightarrow> real \<Rightarrow> 'q \<Rightarrow> 'l \<Rightarrow> real" where
  "symbol_mass M tau q b = scaled_mass tau (filter (\<lambda>(c, q', w). c = b) (arcs M q))"

definition arc_mass :: "('l, 'q) fsa \<Rightarrow> real \<Rightarrow> 'q \<Rightarrow> 'l \<Rightarrow> 'q \<Rightarrow> real" where
  "arc_mass M tau q b q' = scaled_mass tau (filter (\<lambda>(c, q'', w). c = b \<and> q' = q'') (arcs M q))"

definition next_symbols :: "('a sym, 'q) fsa \<Rightarrow> real \<Rightarrow> 'q \<Rightarrow> ('a sym \<times> real) list" where
  "next_symbols M tau q =
     AList.update EOS (scaled tau (rho_at M q) / Z_at M tau q)
       (dict_of (map (\<lambda>b. (b, symbol_mass M tau q b / Z_at M tau q)) (Sigma M)))"

definition next_beliefs :: "('a sym, 'q) fsa \<Rightarrow> real \<Rightarrow> 'q \<Rightarrow> ('a sym \<times> ('q \<times> real) list) list" where
  "next_beliefs M tau q =
     dict_of (concat (map (\<lambda>b.
        if symbol_mass M tau q b > 0
        then [(b, dict_of (map (\<lambda>q'. (q', arc_mass M tau q b q' / symbol_mass M tau q b)) (Q M)))]
        else []) (Sigma M)))"

text \<open>
  What numpy's generator guarantees of a draw from valid probabilities: the index is
  in range and its probability is positive.
\<close>

definition choice_sound :: "('g \<Rightarrow> real list \<Rightarrow> nat \<times> 'g) \<Rightarrow> bool" where
  "choice_sound choice =
     (\<forall>g p. sum_list p = 1 \<and> (\<forall>x \<in> set p. 0 \<le> x) \<longrightarrow>
        fst (choice g p) < length p \<and> 0 < p ! fst (choice g p))"

text \<open>A generator that answers with the first candidate of positive probability.\<close>

definition choice_pos :: "unit \<Rightarrow> real list \<Rightarrow> nat \<times> unit" where
  "choice_pos g p = (length (takeWhile (\<lambda>x. \<not> 0 < x) p), g)"

text \<open>
  The precondition on the hook: at every state with a non-zero normaliser, whatever the
  sequence so far, a symbol of positive probability in the transformed distribution is
  the end-of-sequence marker or a symbol of the alphabet with positive arc mass.
\<close>

definition support_ok ::
  "('a sym list \<Rightarrow> ('a sym \<times> real) list \<Rightarrow> ('a sym \<times> real) list) \<Rightarrow> ('a sym, 'q) fsa \<Rightarrow> real \<Rightarrow> bool" where
  "support_ok transform M tau =
     (\<forall>y q b p. Z_at M tau q \<noteq> 0 \<and> (b, p) \<in> set (transform y (next_symbols M tau q)) \<and> 0 < p \<longrightarrow>
        b = EOS \<or> (b \<in> set (Sigma M) \<and> 0 < symbol_mass M tau q b))"

text \<open>The invariant of the loop: no lookup in the belief map has failed.\<close>

definition no_key_error ::
  "('g \<Rightarrow> real list \<Rightarrow> nat \<times> 'g) \<Rightarrow> ('a sym list \<Rightarrow> ('a sym \<times> real) list \<Rightarrow> ('a sym \<times> real) list)
     \<Rightarrow> ('a sym, 'q) fsa \<Rightarrow> real \<Rightarrow> ('a sym \<times> ('q \<times> real) list) list \<Rightarrow> 'a sym
     \<Rightarrow> (error + ('a sym list \<times> 'g)) \<Rightarrow> bool" where
  "no_key_error choice transform M tau pq_a a res =
     (choice_sound choice \<and> 0 < tau \<and> support_ok transform M tau \<and>
      (a = EOS \<or> a \<in> fst ` set pq_a) \<longrightarrow> res \<noteq> Inl KeyError)"

text \<open>
  The arcs as a relation on states, and what the specification asks of the two
  searches: the states reached from an initial state, and the states that reach a final
  state. A list is \<open>closed_under\<close> the neighbours when it holds the neighbours of each of its states.
\<close>

definition edges :: "('l, 'q) fsa \<Rightarrow> ('q \<times> 'q) set" where
  "edges M = {(i, j). \<exists>a w. (i, a, j, w) \<in> set (delta M)}"

definition reached_from_initial :: "('l, 'q) fsa \<Rightarrow> 'q set" where
  "reached_from_initial M = {q. \<exists>p \<in> fst ` set (I M). (p, q) \<in> (edges M)\<^sup>*}"

definition reaching_final :: "('l, 'q) fsa \<Rightarrow> 'q set" where
  "reaching_final M = {q. \<exists>f \<in> set (finals M). (q, f) \<in> (edges M)\<^sup>*}"

definition closed_under :: "('q \<Rightarrow> 'q list) \<Rightarrow> 'q list \<Rightarrow> bool" where
  "closed_under nxt S = (\<forall>q \<in> set S. set (nxt q) \<subseteq> set S)"

text \<open>The initial and the final weights are dictionaries: a state has one entry.\<close>

definition well_formed :: "('l, 'q) fsa \<Rightarrow> bool" where
  "well_formed M = (distinct (map fst (lam M)) \<and> distinct (map fst (rho M)))"

text \<open>
  The example of the specification, with one more state: state 0 is initial, state 1 is
  final, state 2 is reached but reaches no final state, and state 3 is reached from no
  initial state.
\<close>

definition M_trim :: "(nat sym, nat) fsa" where
  "M_trim = \<lparr>R = Real, is_fst = False, Q = [0, 1, 2, 3], Sigma = [Sym 0, Sym 1],
              delta = [(0, Sym 0, 1, 6 / 10), (0, Sym 1, 2, 4 / 10), (3, Sym 0, 1, 1)],
              lam = [(0, 1)], rho = [(1, 1), (2, 0)]\<rparr>"

section \<open>The distributions of the two samplers\<close>









section \<open>Dictionaries and errors\<close>

lemma bindE_Inl [simp]: "bindE (Inl e) f = Inl e"
  by (simp add: bindE_def)

lemma bindE_Inr [simp]: "bindE (Inr x) f = f x"
  by (simp add: bindE_def)

lemma mapE_Inr: "(\<And>x. x \<in> set xs \<Longrightarrow> f x = Inr (h x)) \<Longrightarrow> mapE f xs = Inr (map h xs)"
  by (induction xs) simp_all

lemma sampler_w_pos: "0 < tau \<Longrightarrow> sampler_w tau w = Inr (w powr (1 / tau))"
  by (simp add: sampler_w_def)

lemma update_keys: "fst ` set (AList.update k v d) = insert k (fst ` set d)"
  by (induction d) auto

lemma update_entries: "set (AList.update k v d) \<subseteq> insert (k, v) (set d)"
  by (induction d) auto

lemma update_fresh: "k \<notin> fst ` set d \<Longrightarrow> AList.update k v d = d @ [(k, v)]"
  by (induction d) auto

lemma fold_update_keys:
  "fst ` set (fold (\<lambda>kv d. AList.update (fst kv) (snd kv) d) kvs d0) = fst ` set kvs \<union> fst ` set d0"
  by (induction kvs arbitrary: d0) (auto simp: update_keys)

lemma fold_update_entries:
  "set (fold (\<lambda>kv d. AList.update (fst kv) (snd kv) d) kvs d0) \<subseteq> set kvs \<union> set d0"
proof (induction kvs arbitrary: d0)
  case Nil
  then show ?case by simp
next
  case (Cons kv kvs)
  have "set (AList.update (fst kv) (snd kv) d0) \<subseteq> insert kv (set d0)"
    using update_entries [of "fst kv" "snd kv" d0] by simp
  with Cons [of "AList.update (fst kv) (snd kv) d0"] show ?case by auto
qed

lemma dict_of_keys: "fst ` set (dict_of kvs) = fst ` set kvs"
  by (simp add: dict_of_def fold_update_keys)

lemma dict_of_entries: "set (dict_of kvs) \<subseteq> set kvs"
  using fold_update_entries [of kvs "[]"] by (simp add: dict_of_def)

lemma fold_update_distinct:
  "distinct (map fst d0) \<Longrightarrow> distinct (map fst (fold (\<lambda>kv d. AList.update (fst kv) (snd kv) d) kvs d0))"
  by (induction kvs arbitrary: d0) (auto simp: distinct_update)

lemma dict_of_distinct: "distinct (map fst (dict_of kvs))"
  by (simp add: dict_of_def fold_update_distinct)


section \<open>Scaled weights and normalisation\<close>

lemma sampler_w_scaled: "0 < tau \<Longrightarrow> sampler_w tau w = Inr (scaled tau w)"
  by (simp add: sampler_w_def scaled_def)

lemma mass_scaled: "0 < tau \<Longrightarrow> mass tau sel = Inr (scaled_mass tau sel)"
proof -
  assume t: "0 < tau"
  have "mapE (\<lambda>(c, q', w). sampler_w tau w) sel = Inr (map (\<lambda>(c, q', w). scaled tau w) sel)"
    by (rule mapE_Inr) (auto simp: sampler_w_scaled [OF t])
  then show ?thesis by (simp add: mass_def scaled_mass_def)
qed

lemma mapE_weak_cong: "xs = ys \<Longrightarrow> mapE f xs = mapE f ys"
  by simp

lemma initial_options_scaled:
  assumes t: "0 < tau" and z: "Z_init M tau \<noteq> 0"
  shows "initial_options M tau =
           Inr (dict_of (map (\<lambda>(p, w). (p, scaled tau w / Z_init M tau)) (I M)))"
proof -
  have 1: "mapE (\<lambda>(p, w). sampler_w tau w) (I M) = Inr (map (\<lambda>(p, w). scaled tau w) (I M))"
    by (rule mapE_Inr) (auto simp: sampler_w_scaled [OF t])
  have 2: "mapE (\<lambda>(p, w). bindE (sampler_w tau w) (\<lambda>x. bindE (divE x Z) (\<lambda>r. Inr (p, r)))) (I M)
           = Inr (map (\<lambda>(p, w). (p, scaled tau w / Z)) (I M))" if "Z \<noteq> 0" for Z
    by (rule mapE_Inr) (auto simp: sampler_w_scaled [OF t] divE_def that)
  have 3: "sum_list (map (\<lambda>(p, w). scaled tau w) (I M)) = Z_init M tau"
    by (simp add: Z_init_def)
  have z': "sum_list (map (\<lambda>(p, w). scaled tau w) (I M)) \<noteq> 0"
    using z 3 by simp
  show ?thesis
    unfolding initial_options_def
    by (simp add: 1 2 [OF z'] Let_def cong: mapE_weak_cong) (simp add: 3)
qed

lemma ancestral_options_scaled:
  assumes t: "0 < tau" and z: "Z_at M tau q \<noteq> 0"
  shows "ancestral_options M tau q =
           Inr (AList.update (SymZero, StateZero) (scaled tau (rho_at M q) / Z_at M tau q)
                 (dict_of (map (\<lambda>(a, q', w). ((SymObj a, StateObj q'), scaled tau w / Z_at M tau q))
                            (arcs M q))))"
proof -
  have 1: "mapE (\<lambda>(a, q', w). sampler_w tau w) (arcs M q) = Inr (map (\<lambda>(a, q', w). scaled tau w) (arcs M q))"
    by (rule mapE_Inr) (auto simp: sampler_w_scaled [OF t])
  have 2: "mapE (\<lambda>(a, q', w). bindE (sampler_w tau w) (\<lambda>x. bindE (divE x Z)
                   (\<lambda>p. Inr ((SymObj a, StateObj q'), p)))) (arcs M q)
           = Inr (map (\<lambda>(a, q', w). ((SymObj a, StateObj q'), scaled tau w / Z)) (arcs M q))"
    if "Z \<noteq> 0" for Z
    by (rule mapE_Inr) (auto simp: sampler_w_scaled [OF t] divE_def that)
  have 3: "sum_list (map (\<lambda>(a, q', w). scaled tau w) (arcs M q)) + scaled tau (rho_at M q) = Z_at M tau q"
    by (simp add: Z_at_def scaled_mass_def)
  have z': "sum_list (map (\<lambda>(a, q', w). scaled tau w) (arcs M q)) + scaled tau (rho_at M q) \<noteq> 0"
    using z 3 by simp
  show ?thesis
    unfolding ancestral_options_def
    by (simp add: 1 sampler_w_scaled [OF t] 2 [OF z'] divE_def z' Let_def cong: mapE_weak_cong)
      (simp add: 3)
qed

lemma map_of_fold_update:
  "map_of (fold (\<lambda>kv d. AList.update (fst kv) (snd kv) d) (map (\<lambda>b. (b, h b)) xs) d0) k
     = (if k \<in> set xs then Some (h k) else map_of d0 k)"
  by (induction xs arbitrary: d0) (auto simp: update_conv')

lemma dict_get_dict_of_fun:
  "b \<in> set xs \<Longrightarrow> dict_get (dict_of (map (\<lambda>b. (b, h b)) xs)) b = Inr (h b)"
  by (simp add: dict_get_def dict_of_def map_of_fold_update)

lemma lm_step_scaled:
  assumes t: "0 < tau" and z: "Z_at M tau q \<noteq> 0"
  shows "lm_step M tau q = Inr (next_symbols M tau q, next_beliefs M tau q)"
proof -
  have m: "mass tau sel = Inr (scaled_mass tau sel)" for sel :: "('a sym \<times> 'b \<times> real) list"
    by (rule mass_scaled [OF t])
  have 1: "mapE (\<lambda>b. bindE (mass tau (filter (\<lambda>(c, q', w). c = b) (arcs M q))) (\<lambda>m. Inr (b, m))) (Sigma M)
           = Inr (map (\<lambda>b. (b, symbol_mass M tau q b)) (Sigma M))"
    by (rule mapE_Inr) (simp add: m symbol_mass_def)
  have 2: "mapE (\<lambda>b. bindE (mass tau (filter (\<lambda>(c, q', w). c = b) (arcs M q))) (\<lambda>m.
                          bindE (divE m Z) (\<lambda>p. Inr (b, p)))) (Sigma M)
           = Inr (map (\<lambda>b. (b, symbol_mass M tau q b / Z)) (Sigma M))" if "Z \<noteq> 0" for Z
    by (rule mapE_Inr) (simp add: m symbol_mass_def divE_def that)
  have inner: "mapE (\<lambda>q'. bindE (mass tau (filter (\<lambda>(c, q'', w). c = b \<and> q' = q'') (arcs M q))) (\<lambda>m.
                            bindE (divE m zb) (\<lambda>p. Inr (q', p)))) (Q M)
           = Inr (map (\<lambda>q'. (q', arc_mass M tau q b q' / zb)) (Q M))"
    if "zb > 0" for b zb
    by (rule mapE_Inr) (use that in \<open>simp add: m arc_mass_def divE_def\<close>)
  have 3: "mapE (\<lambda>b. bindE (dict_get (dict_of (map (\<lambda>b. (b, symbol_mass M tau q b)) (Sigma M))) b) (\<lambda>z.
                 if z > 0 then
                   bindE (mapE (\<lambda>q'.
                            bindE (mass tau (filter (\<lambda>(c, q'', w). c = b \<and> q' = q'') (arcs M q))) (\<lambda>m.
                            bindE (dict_get (dict_of (map (\<lambda>b. (b, symbol_mass M tau q b)) (Sigma M))) b) (\<lambda>z'.
                            bindE (divE m z') (\<lambda>p. Inr (q', p))))) (Q M))
                     (\<lambda>inner. Inr [(b, dict_of inner)])
                 else Inr [])) (Sigma M)
        = Inr (map (\<lambda>b. if symbol_mass M tau q b > 0
                 then [(b, dict_of (map (\<lambda>q'. (q', arc_mass M tau q b q' / symbol_mass M tau q b)) (Q M)))]
                 else []) (Sigma M))"
  proof (rule mapE_Inr)
    fix b assume "b \<in> set (Sigma M)"
    then have g: "dict_get (dict_of (map (\<lambda>b. (b, symbol_mass M tau q b)) (Sigma M))) b
                   = Inr (symbol_mass M tau q b)"
      by (rule dict_get_dict_of_fun)
    show "bindE (dict_get (dict_of (map (\<lambda>b. (b, symbol_mass M tau q b)) (Sigma M))) b) (\<lambda>z.
                 if z > 0 then
                   bindE (mapE (\<lambda>q'.
                            bindE (mass tau (filter (\<lambda>(c, q'', w). c = b \<and> q' = q'') (arcs M q))) (\<lambda>m.
                            bindE (dict_get (dict_of (map (\<lambda>b. (b, symbol_mass M tau q b)) (Sigma M))) b) (\<lambda>z'.
                            bindE (divE m z') (\<lambda>p. Inr (q', p))))) (Q M))
                     (\<lambda>inner. Inr [(b, dict_of inner)])
                 else Inr [])
          = Inr (if symbol_mass M tau q b > 0
                 then [(b, dict_of (map (\<lambda>q'. (q', arc_mass M tau q b q' / symbol_mass M tau q b)) (Q M)))]
                 else [])"
    proof (cases "symbol_mass M tau q b > 0")
      case True
      show ?thesis
        by (simp only: g bindE_Inr True if_True inner [OF True])
    next
      case False
      show ?thesis
        by (simp only: g bindE_Inr False if_False)
    qed
  qed
  have zq: "scaled_mass tau (arcs M q) + scaled tau (rho_at M q) = Z_at M tau q"
    by (simp add: Z_at_def)
  have z': "scaled_mass tau (arcs M q) + scaled tau (rho_at M q) \<noteq> 0"
    using z zq by simp
  show ?thesis
    unfolding lm_step_def
    by (simp add: m sampler_w_scaled [OF t] 1 2 [OF z'] 3 divE_def z' Let_def cong: mapE_weak_cong)
      (simp add: zq next_symbols_def next_beliefs_def)
qed

section \<open>The autoregressive loop\<close>

lemma lm_loop_extends:
  assumes "lm_loop choice transform M tau g pq_a a y = Some res"
  shows "extends a y res"
proof (rule lm_loop.raw_induct
    [where P = "\<lambda>choice transform M tau g pq_a a y res. extends a y res", OF _ assms], goal_cases)
  case (1 loop choice transform M tau g pq_a a y res)
  show ?case
  proof (cases "a = EOS")
    case True
    with 1(2) have "res = Inr (y, g)" by simp
    with True show ?thesis by (simp add: extends_def)
  next
    case False
    show ?thesis
      unfolding extends_def
    proof (intro allI impI)
      fix y' g'
      assume r: "res = Inr (y', g')"
      from 1(2) False r obtain belief where
        b: "dict_get pq_a a = Inr belief"
        by (cases "dict_get pq_a a") auto
      from 1(2) False r b obtain q g1 where
        d1: "draw choice g belief = Inr (q, g1)"
        by (cases "draw choice g belief") auto
      from 1(2) False r b d1 obtain pa pq_a' where
        st: "lm_step M tau q = Inr (pa, pq_a')"
        by (cases "lm_step M tau q") auto
      from 1(2) False r b d1 st obtain a' g2 where
        d2: "draw choice g1 (transform y pa) = Inr (a', g2)"
        by (cases "draw choice g1 (transform y pa)") auto
      from 1(2) False r b d1 st d2 have
        call: "loop choice transform M tau g2 pq_a' a' (y @ [a']) = Some (Inr (y', g'))"
        by simp
      from 1(1) [OF call] obtain zs where
        zs: "y' = (y @ [a']) @ zs" "if a' = EOS then zs = [] else zs \<noteq> [] \<and> last zs = EOS"
        unfolding extends_def by blast
      have "y' = y @ (a' # zs)" using zs(1) by simp
      moreover have "last (a' # zs) = EOS" using zs(2) by (auto split: if_splits)
      ultimately show "\<exists>zs. y' = y @ zs \<and> (if a = EOS then zs = [] else zs \<noteq> [] \<and> last zs = EOS)"
        using False by (intro exI [of _ "a' # zs"]) simp
    qed
  qed
qed

section \<open>What the autoregressive sampler returns\<close>

lemma M_stop_initial: "initial_options M_stop 1 = Inr [(0, 1)]"
  by (simp add: initial_options_def M_stop_def I_def sampler_w_def divE_def dict_of_def)

lemma M_stop_step: "lm_step M_stop 1 0 = Inr ([(EOS, 1)], [])"
  by (simp add: lm_step_def mass_def M_stop_def arcs_def rho_at_def sampler_w_def divE_def dict_of_def)

lemma M_stop_lm_loop:
  "lm_loop choice_first (\<lambda>y p. p) M_stop 1 () [(Eps, [(0, 1)])] Eps [Eps] = Some (Inr ([Eps, EOS], ()))"
  apply (subst lm_loop.simps)
  apply (simp add: dict_get_def draw_def choice_first_def M_stop_step)
  apply (subst lm_loop.simps)
  apply simp
  done

lemma M_stop_lm_run:
  "ancestral_lm choice_first str M_stop 1 () False (\<lambda>y p. p) = Some (Inr (Seq [Eps, EOS], ()))"
  by (simp add: ancestral_lm_def M_stop_initial M_stop_lm_loop render_def)

text \<open>
  Claim C7, as amended. The autoregressive sampler returns its internal sequence whole:
  whenever it returns a sample, the sample is the empty-prefix marker followed by the
  symbols drawn, of which there is at least one and the last is the end-of-sequence
  marker; with \<open>to_string\<close> it is the concatenation of the strings of all of them, the
  marker's included.
\<close>

theorem ancestral_lm_keeps_markers:
  assumes "ancestral_lm choice str M tau g to_string transform = Some (Inr (smp, g'))"
  shows "\<exists>zs. zs \<noteq> [] \<and> last zs = EOS \<and>
           smp = (if to_string then Str (str Eps @ concat (map str zs)) else Seq (Eps # zs))"
proof -
  from assms obtain belief y where
    loop: "lm_loop choice transform M tau g [(Eps, belief)] Eps [Eps] = Some (Inr (y, g'))"
    and smp: "smp = render str to_string y"
    by (auto simp: ancestral_lm_def split: sum.splits option.splits prod.splits)
  from lm_loop_extends [OF loop] obtain zs where
    "y = [Eps] @ zs" "zs \<noteq> []" "last zs = EOS"
    unfolding extends_def by auto
  with smp show ?thesis by (auto simp: render_def)
qed

theorem ancestral_lm_keeps_markers_witness:
  "ancestral_lm choice_first (\<lambda>s. ''x'') M_stop 1 () False (\<lambda>y p. p) = Some (Inr (Seq [Eps, EOS], ()))
   \<and> (\<exists>zs :: nat sym list. zs \<noteq> [] \<and> last zs = EOS \<and> Seq [Eps, EOS] = Seq (Eps # zs))"
  using ancestral_lm_keeps_markers [OF M_stop_lm_run [of "\<lambda>s. ''x''"]] M_stop_lm_run [of "\<lambda>s. ''x''"]
  by simp

text \<open>
  On the automaton with one state and no arc the sequence returned is the marker
  followed by \<open>EOS\<close>: the marker is part of the sample.
\<close>

theorem ancestral_lm_returns_marker:
  "ancestral_lm choice_first (\<lambda>s. ''x'') M_stop 1 () False (\<lambda>y p. p) = Some (Inr (Seq [Eps, EOS], ()))"
  by (simp add: ancestral_lm_def M_stop_initial M_stop_lm_loop render_def)

section \<open>Constructing a sampler\<close>

text \<open>
  Claim C6. Construction fails with the assertion's error when the automaton's semiring
  is not the real semiring. Otherwise it succeeds: the working automaton is the pushed
  automaton when the given one is not probabilistic, and the given automaton itself
  when it is.
\<close>

theorem sampler_init_contract:
  "(R M \<noteq> Real \<longrightarrow>
      sampler_init push is_probabilistic seeded entropy M tau seed = Inl AssertionError) \<and>
   (R M = Real \<and> \<not> is_probabilistic M \<longrightarrow>
      (\<exists>S. sampler_init push is_probabilistic seeded entropy M tau seed = Inr S \<and> A S = push M)) \<and>
   (R M = Real \<and> is_probabilistic M \<longrightarrow>
      (\<exists>S. sampler_init push is_probabilistic seeded entropy M tau seed = Inr S \<and> A S = M))"
  by (simp add: sampler_init_def)

theorem sampler_init_contract_witness:
  "sampler_init spawn (\<lambda>M. False) (\<lambda>s. ()) () (M_stop\<lparr>R := Tropical\<rparr>) 1 None = Inl AssertionError \<and>
   (\<exists>S. sampler_init spawn (\<lambda>M. False) (\<lambda>s. ()) () M_stop 1 None = Inr S \<and> A S = spawn M_stop) \<and>
   (\<exists>S. sampler_init spawn (\<lambda>M. True) (\<lambda>s. ()) () M_stop 1 None = Inr S \<and> A S = M_stop)"
  using sampler_init_contract [of "M_stop\<lparr>R := Tropical\<rparr>" spawn "\<lambda>M. False" "\<lambda>s. ()" "()" 1 None]
    sampler_init_contract [of M_stop spawn "\<lambda>M. False" "\<lambda>s. ()" "()" 1 None]
    sampler_init_contract [of M_stop spawn "\<lambda>M. True" "\<lambda>s. ()" "()" 1 None]
  by (simp add: M_stop_def)

section \<open>Degenerate distributions\<close>

lemma mapE_all_Inl: "xs \<noteq> [] \<Longrightarrow> (\<And>x. x \<in> set xs \<Longrightarrow> f x = Inl e) \<Longrightarrow> mapE f xs = Inl e"
  by (cases xs) simp_all

lemma initial_options_zero:
  assumes t: "0 < tau" and z: "Z_init M tau = 0" and ne: "I M \<noteq> []"
  shows "initial_options M tau = Inl ZeroDivisionError"
proof -
  have 1: "mapE (\<lambda>(p, w). sampler_w tau w) (I M) = Inr (map (\<lambda>(p, w). scaled tau w) (I M))"
    by (rule mapE_Inr) (auto simp: sampler_w_scaled [OF t])
  have 2: "mapE (\<lambda>(p, w). bindE (sampler_w tau w) (\<lambda>x. bindE (divE x Z) (\<lambda>r. Inr (p, r)))) (I M)
           = Inl ZeroDivisionError" if "Z = 0" for Z
    by (rule mapE_all_Inl [OF ne]) (auto simp: sampler_w_scaled [OF t] divE_def that)
  have 3: "sum_list (map (\<lambda>(p, w). scaled tau w) (I M)) = 0"
    using z by (simp add: Z_init_def)
  show ?thesis
    unfolding initial_options_def
    by (simp add: 1 2 [OF 3] Let_def cong: mapE_weak_cong)
qed

lemma ancestral_options_zero:
  assumes t: "0 < tau" and z: "Z_at M tau q = 0"
  shows "ancestral_options M tau q = Inl ZeroDivisionError"
proof -
  have 1: "mapE (\<lambda>(a, q', w). sampler_w tau w) (arcs M q) = Inr (map (\<lambda>(a, q', w). scaled tau w) (arcs M q))"
    by (rule mapE_Inr) (auto simp: sampler_w_scaled [OF t])
  have 3: "sum_list (map (\<lambda>(a, q', w). scaled tau w) (arcs M q)) + scaled tau (rho_at M q) = 0"
    using z by (simp add: Z_at_def scaled_mass_def)
  show ?thesis
  proof (cases "arcs M q = []")
    case True
    with 3 show ?thesis
      unfolding ancestral_options_def
      by (simp add: sampler_w_scaled [OF t] divE_def Let_def)
  next
    case False
    have 2: "mapE (\<lambda>(a, q', w). bindE (sampler_w tau w) (\<lambda>x. bindE (divE x Z)
                   (\<lambda>p. Inr ((SymObj a, StateObj q'), p)))) (arcs M q) = Inl ZeroDivisionError"
      if "Z = 0" for Z
      by (rule mapE_all_Inl [OF False]) (auto simp: sampler_w_scaled [OF t] divE_def that)
    show ?thesis
      unfolding ancestral_options_def
      by (simp add: 1 sampler_w_scaled [OF t] 2 [OF 3] Let_def cong: mapE_weak_cong)
  qed
qed

lemma lm_step_zero:
  assumes t: "0 < tau" and z: "Z_at M tau q = 0"
  shows "lm_step M tau q = Inl ZeroDivisionError"
proof -
  have m: "mass tau sel = Inr (scaled_mass tau sel)" for sel :: "('a sym \<times> 'b \<times> real) list"
    by (rule mass_scaled [OF t])
  have 1: "mapE (\<lambda>b. bindE (mass tau (filter (\<lambda>(c, q', w). c = b) (arcs M q))) (\<lambda>m. Inr (b, m))) (Sigma M)
           = Inr (map (\<lambda>b. (b, symbol_mass M tau q b)) (Sigma M))"
    by (rule mapE_Inr) (simp add: m symbol_mass_def)
  have zq: "scaled_mass tau (arcs M q) + scaled tau (rho_at M q) = 0"
    using z by (simp add: Z_at_def)
  show ?thesis
  proof (cases "Sigma M = []")
    case True
    then show ?thesis
      unfolding lm_step_def
      by (simp add: m sampler_w_scaled [OF t] zq divE_def Let_def)
  next
    case False
    have 2: "mapE (\<lambda>b. bindE (mass tau (filter (\<lambda>(c, q', w). c = b) (arcs M q))) (\<lambda>m.
                          bindE (divE m Z) (\<lambda>p. Inr (b, p)))) (Sigma M) = Inl ZeroDivisionError"
      if "Z = 0" for Z
      by (rule mapE_all_Inl [OF False]) (simp add: m divE_def that)
    show ?thesis
      unfolding lm_step_def
      by (simp add: m sampler_w_scaled [OF t] 1 2 [OF zq] Let_def cong: mapE_weak_cong)
  qed
qed

lemma draw_empty: "draw choice g [] = Inl ValueError"
  by (simp add: draw_def)

lemma initial_options_empty: "I M = [] \<Longrightarrow> initial_options M tau = Inr []"
  by (simp add: initial_options_def dict_of_def)

lemma lm_loop_empty_belief:
  "lm_loop choice transform M tau g [(Eps, [])] Eps y = Some (Inl ValueError)"
  by (subst lm_loop.simps) (simp add: dict_get_def draw_empty)

lemma ancestral_loop_step_error:
  "ancestral_step choice M tau g q y = Inl e \<Longrightarrow>
     ancestral_loop choice M tau g (StateObj q) y = Some (Inl e)"
  by (subst ancestral_loop.simps) simp

lemma M_dead_Z: "Z_at M_dead 1 0 = 0"
  by (simp add: Z_at_def M_dead_def arcs_def rho_at_def scaled_mass_def scaled_def)

lemma M_dead_initial: "initial_options M_dead 1 = Inr [(0, 1)]"
  by (simp add: initial_options_def M_dead_def I_def sampler_w_def divE_def dict_of_def)

lemma M_dead_run: "ancestral choice_first str M_dead 1 () False = Some (Inl ZeroDivisionError)"
proof -
  have "ancestral_step choice_first M_dead 1 () 0 [] = Inl ZeroDivisionError"
    by (simp add: ancestral_step_def ancestral_options_zero M_dead_Z)
  then have "ancestral_loop choice_first M_dead 1 () (StateObj 0) [] = Some (Inl ZeroDivisionError)"
    by (rule ancestral_loop_step_error)
  then show ?thesis
    by (simp add: ancestral_def M_dead_initial draw_def choice_first_def)
qed

text \<open>
  Claim C4, as amended. No path of the sampler raises DegenerateDistributionError. With
  no initial state both samplers end with the ValueError of the draw on an empty
  dictionary. With initial states whose scaled weights sum to zero both end with
  Python's ZeroDivisionError, and so does every step at a state whose scaled outgoing
  weight and scaled final weight sum to zero; nothing is drawn from such a state.
\<close>

theorem degenerate_mass_errors:
  fixes M :: "('a sym, 'q) fsa"
  shows
  "(I M = [] \<longrightarrow>
      ancestral choice str M tau g to_string = Some (Inl ValueError) \<and>
      ancestral_lm choice str M tau g to_string transform = Some (Inl ValueError)) \<and>
   (0 < tau \<and> I M \<noteq> [] \<and> Z_init M tau = 0 \<longrightarrow>
      ancestral choice str M tau g to_string = Some (Inl ZeroDivisionError) \<and>
      ancestral_lm choice str M tau g to_string transform = Some (Inl ZeroDivisionError)) \<and>
   (0 < tau \<and> Z_at M tau q = 0 \<longrightarrow>
      ancestral_loop choice M tau g (StateObj q) y = Some (Inl ZeroDivisionError) \<and>
      (a \<noteq> EOS \<and> dict_get pq_a a = Inr belief \<and> draw choice g belief = Inr (q, g1) \<longrightarrow>
         lm_loop choice transform M tau g pq_a a ys = Some (Inl ZeroDivisionError)))"
proof (intro conjI impI)
  assume e: "I M = []"
  show "ancestral choice str M tau g to_string = Some (Inl ValueError)"
    by (simp add: ancestral_def initial_options_empty [OF e] draw_empty)
  show "ancestral_lm choice str M tau g to_string transform = Some (Inl ValueError)"
    by (simp add: ancestral_lm_def initial_options_empty [OF e] lm_loop_empty_belief)
next
  assume "0 < tau \<and> I M \<noteq> [] \<and> Z_init M tau = 0"
  then have i: "initial_options M tau = Inl ZeroDivisionError"
    by (simp add: initial_options_zero)
  show "ancestral choice str M tau g to_string = Some (Inl ZeroDivisionError)"
    by (simp add: ancestral_def i)
  show "ancestral_lm choice str M tau g to_string transform = Some (Inl ZeroDivisionError)"
    by (simp add: ancestral_lm_def i)
next
  assume z: "0 < tau \<and> Z_at M tau q = 0"
  then have "ancestral_step choice M tau g q y = Inl ZeroDivisionError"
    by (simp add: ancestral_step_def ancestral_options_zero)
  then show "ancestral_loop choice M tau g (StateObj q) y = Some (Inl ZeroDivisionError)"
    by (rule ancestral_loop_step_error)
  assume "a \<noteq> EOS \<and> dict_get pq_a a = Inr belief \<and> draw choice g belief = Inr (q, g1)"
  moreover from z have "lm_step M tau q = Inl ZeroDivisionError"
    by (simp add: lm_step_zero)
  ultimately show "lm_loop choice transform M tau g pq_a a ys = Some (Inl ZeroDivisionError)"
    by (subst lm_loop.simps) simp
qed

theorem degenerate_mass_errors_witness:
  "I (M_stop\<lparr>lam := []\<rparr>) = [] \<and>
   ancestral choice_first (\<lambda>s. ''x'') (M_stop\<lparr>lam := []\<rparr>) 1 () False = Some (Inl ValueError) \<and>
   ancestral_lm choice_first (\<lambda>s. ''x'') (M_stop\<lparr>lam := []\<rparr>) 1 () False (\<lambda>y p. p) = Some (Inl ValueError) \<and>
   Z_init (M_stop\<lparr>lam := [(0, 0)]\<rparr>) 1 = 0 \<and>
   ancestral choice_first (\<lambda>s. ''x'') (M_stop\<lparr>lam := [(0, 0)]\<rparr>) 1 () False = Some (Inl ZeroDivisionError) \<and>
   ancestral_lm choice_first (\<lambda>s. ''x'') (M_stop\<lparr>lam := [(0, 0)]\<rparr>) 1 () False (\<lambda>y p. p)
     = Some (Inl ZeroDivisionError) \<and>
   Z_at M_dead 1 0 = 0 \<and>
   ancestral_loop choice_first M_dead 1 () (StateObj 0) [] = Some (Inl ZeroDivisionError) \<and>
   lm_loop choice_first (\<lambda>y p. p) M_dead 1 () [(Eps, [(0, 1)])] Eps [Eps] = Some (Inl ZeroDivisionError)"
proof -
  have d: "draw choice_first () [(0 :: nat, 1 :: real)] = Inr (0, ())"
    by (simp add: draw_def choice_first_def)
  have g: "dict_get [(Eps :: nat sym, [(0 :: nat, 1 :: real)])] Eps = Inr [(0, 1)]"
    by (simp add: dict_get_def)
  have z0: "Z_init (M_stop\<lparr>lam := [(0, 0)]\<rparr>) 1 = 0"
    by (simp add: Z_init_def I_def scaled_def)
  have i0: "I (M_stop\<lparr>lam := [(0, 0)]\<rparr>) \<noteq> []" "I (M_stop\<lparr>lam := []\<rparr>) = []"
    by (simp_all add: I_def)
  show ?thesis
    using degenerate_mass_errors [of "M_stop\<lparr>lam := []\<rparr>" choice_first "\<lambda>s. ''x''" 1 "()" False "\<lambda>y p. p"]
      degenerate_mass_errors [of "M_stop\<lparr>lam := [(0, 0)]\<rparr>" choice_first "\<lambda>s. ''x''" 1 "()" False "\<lambda>y p. p"]
      degenerate_mass_errors [of M_dead choice_first "\<lambda>s. ''x''" 1 "()" False "\<lambda>y p. p" 0 "[]"
        Eps "[(Eps, [(0, 1)])]" "[(0, 1)]" "()" "[Eps]"]
      d g z0 i0 M_dead_Z
    by simp
qed

text \<open>
  A state with no arc and no final weight: the sampler ends with ZeroDivisionError, which
  is not the error the claim names.
\<close>

theorem degenerate_is_zero_division:
  "ancestral choice_first (\<lambda>s. ''x'') M_dead 1 () False = Some (Inl ZeroDivisionError) \<and>
   ancestral choice_first (\<lambda>s. ''x'') M_dead 1 () False \<noteq> Some (Inl DegenerateDistributionError)"
  by (simp add: M_dead_run)

section \<open>Temperature scaling\<close>

text \<open>
  Claim C5. For a positive temperature the effective weight of a raw weight \<open>w\<close> is
  \<open>w^(1/T)\<close>, and every distribution the sampler normalises is a quotient of effective
  weights: the initial distribution, the distribution of one step of the plain sampler
  (arcs and stop pair) and the next-symbol and belief distributions of the
  autoregressive sampler. The scaling is applied to the raw weights, under the sum and
  in the numerator, and never to a quotient.
\<close>

theorem temperature_scaling:
  fixes M :: "('a sym, 'q) fsa"
  shows "(tau \<noteq> 0 \<and> (w \<noteq> 0 \<or> 0 < tau) \<longrightarrow> sampler_w tau w = Inr (w powr (1 / tau))) \<and>
         scaled tau w = w powr (1 / tau) \<and>
         Z_init M tau = sum_list (map (\<lambda>(p, w). w powr (1 / tau)) (I M)) \<and>
         Z_at M tau q = sum_list (map (\<lambda>(a, q', w). w powr (1 / tau)) (arcs M q))
                          + rho_at M q powr (1 / tau) \<and>
         (0 < tau \<and> Z_init M tau \<noteq> 0 \<longrightarrow>
            initial_options M tau =
              Inr (dict_of (map (\<lambda>(p, w). (p, scaled tau w / Z_init M tau)) (I M)))) \<and>
         (0 < tau \<and> Z_at M tau q \<noteq> 0 \<longrightarrow>
            ancestral_options M tau q =
              Inr (AList.update (SymZero, StateZero) (scaled tau (rho_at M q) / Z_at M tau q)
                    (dict_of (map (\<lambda>(a, q', w). ((SymObj a, StateObj q'), scaled tau w / Z_at M tau q))
                               (arcs M q)))) \<and>
            lm_step M tau q = Inr (next_symbols M tau q, next_beliefs M tau q))"
proof -
  have "sampler_w tau w = Inr (w powr (1 / tau))" if "tau \<noteq> 0" "w \<noteq> 0 \<or> 0 < tau"
    using that by (auto simp: sampler_w_def not_less [symmetric])
  then show ?thesis
    by (simp add: initial_options_scaled ancestral_options_scaled lm_step_scaled
        Z_init_def Z_at_def scaled_mass_def scaled_def)
qed

lemma M_two_arcs: "arcs M_two (Suc 0) = [(Sym 0, 0, 1 / 2)]" "arcs M_two 0 = []"
  by (simp_all add: arcs_def M_two_def)

lemma M_two_rho: "rho_at M_two (Suc 0) = 1 / 2" "rho_at M_two 0 = 1"
  by (simp_all add: rho_at_def M_two_def)

lemma M_two_I: "I M_two = [(Suc 0, 1)]"
  by (simp add: I_def M_two_def)

lemma half_powr_2: "(1 / 2 :: real) powr 2 = 1 / 4"
  by (simp add: power2_eq_square)

lemma M_two_Z_half: "Z_at M_two (1 / 2) (Suc 0) = 1 / 2" "Z_init M_two (1 / 2) = 1"
  by (simp_all add: Z_at_def Z_init_def scaled_mass_def scaled_def M_two_arcs M_two_rho M_two_I
      half_powr_2)

theorem temperature_scaling_witness:
  "(0 :: real) < 1 / 2 \<and> Z_init M_two (1 / 2) \<noteq> 0 \<and> Z_at M_two (1 / 2) 1 \<noteq> 0 \<and>
   sampler_w (1 / 2) (1 / 2) = Inr (1 / 4) \<and>
   initial_options M_two (1 / 2) = Inr [(1, 1)] \<and>
   ancestral_options M_two (1 / 2) 1 =
     Inr [((SymObj (Sym 0), StateObj 0), 1 / 2), ((SymZero, StateZero), 1 / 2)]"
proof -
  show ?thesis
    using temperature_scaling [of "1 / 2" "1 / 2" M_two 1]
    by (simp add: M_two_Z_half M_two_arcs M_two_rho M_two_I scaled_def half_powr_2 dict_of_def)
qed

section \<open>One step of plain ancestral sampling\<close>

lemma stop_not_arc:
  "(SymZero, StateZero) \<notin> fst ` set (map (\<lambda>(a, q', w). ((SymObj a, StateObj q'), h a q' w)) xs)"
  by auto

lemma ancestral_loop_stop: "ancestral_loop choice M tau g StateZero y = Some (Inr (y, g))"
  by (subst ancestral_loop.simps) simp

lemma ancestral_loop_unfold:
  "ancestral_step choice M tau g q y = Inr (q', y', g') \<Longrightarrow>
     ancestral_loop choice M tau g (StateObj q) y = ancestral_loop choice M tau g' q' y'"
  by (subst ancestral_loop.simps) simp

text \<open>
  Claim C1. At a state \<open>q\<close> with a positive temperature and a non-zero normaliser
  \<open>Z\<close>, the sum of the scaled weights of the arcs leaving \<open>q\<close> and of the scaled final
  weight of \<open>q\<close>, the plain sampler builds a dictionary whose keys are the pairs
  (symbol, destination) of the arcs leaving \<open>q\<close> and the stop pair, each key once, and
  whose probabilities are scaled weight over \<open>Z\<close>: the scaled final weight for the stop
  pair, the scaled weight of an arc with that pair otherwise. When the stop pair is
  drawn the loop ends and returns the sequence as it is; when any other pair is drawn,
  its symbol is appended and the loop goes on from its destination, whatever that
  state is.
\<close>

theorem ancestral_step_distribution:
  assumes "0 < tau" and "Z_at M tau q \<noteq> 0"
  shows "\<exists>options. ancestral_options M tau q = Inr options \<and>
           distinct (map fst options) \<and>
           fst ` set options =
             insert (SymZero, StateZero) ((\<lambda>(a, q', w). (SymObj a, StateObj q')) ` set (arcs M q)) \<and>
           (\<forall>(k, p) \<in> set options.
              (k = (SymZero, StateZero) \<and> p = scaled tau (rho_at M q) / Z_at M tau q) \<or>
              (\<exists>(a, q', w) \<in> set (arcs M q).
                 k = (SymObj a, StateObj q') \<and> p = scaled tau w / Z_at M tau q)) \<and>
           (\<forall>k g'. draw choice g options = Inr (k, g') \<longrightarrow>
              (k = (SymZero, StateZero) \<longrightarrow>
                 ancestral_loop choice M tau g (StateObj q) y = Some (Inr (y, g'))) \<and>
              (\<forall>a q'. k = (SymObj a, StateObj q') \<longrightarrow>
                 ancestral_loop choice M tau g (StateObj q) y
                   = ancestral_loop choice M tau g' (StateObj q') (y @ [a])))"
proof -
  let ?kvs = "map (\<lambda>(a, q', w). ((SymObj a, StateObj q'), scaled tau w / Z_at M tau q)) (arcs M q)"
  let ?p0 = "scaled tau (rho_at M q) / Z_at M tau q"
  let ?options = "AList.update (SymZero, StateZero) ?p0 (dict_of ?kvs)"
  have opts: "ancestral_options M tau q = Inr ?options"
    by (rule ancestral_options_scaled [OF assms])
  have fresh: "(SymZero, StateZero) \<notin> fst ` set (dict_of ?kvs)"
    unfolding dict_of_keys by auto
  have app: "?options = dict_of ?kvs @ [((SymZero, StateZero), ?p0)]"
    by (rule update_fresh [OF fresh])
  have d: "distinct (map fst ?options)"
    by (simp add: distinct_update dict_of_distinct)
  have keys: "fst ` set ?options =
      insert (SymZero, StateZero) ((\<lambda>(a, q', w). (SymObj a, StateObj q')) ` set (arcs M q))"
    by (simp add: update_keys dict_of_keys image_image case_prod_unfold)
  have entries: "\<forall>(k, p) \<in> set ?options.
              (k = (SymZero, StateZero) \<and> p = ?p0) \<or>
              (\<exists>(a, q', w) \<in> set (arcs M q).
                 k = (SymObj a, StateObj q') \<and> p = scaled tau w / Z_at M tau q)"
  proof (clarify)
    fix a b p
    assume "((a, b), p) \<in> set ?options" and
      n: "\<not> (\<exists>(a', q', w) \<in> set (arcs M q). (a, b) = (SymObj a', StateObj q') \<and> p = scaled tau w / Z_at M tau q)"
    then have "((a, b), p) = ((SymZero, StateZero), ?p0) \<or> ((a, b), p) \<in> set ?kvs"
      using dict_of_entries [of ?kvs] by (auto simp: app)
    with n show "(a, b) = (SymZero, StateZero) \<and> p = ?p0"
      by auto
  qed
  have steps: "\<forall>k g'. draw choice g ?options = Inr (k, g') \<longrightarrow>
              (k = (SymZero, StateZero) \<longrightarrow>
                 ancestral_loop choice M tau g (StateObj q) y = Some (Inr (y, g'))) \<and>
              (\<forall>a q'. k = (SymObj a, StateObj q') \<longrightarrow>
                 ancestral_loop choice M tau g (StateObj q) y
                   = ancestral_loop choice M tau g' (StateObj q') (y @ [a]))"
  proof (intro allI impI conjI)
    fix k g' assume dr: "draw choice g ?options = Inr (k, g')"
    {
      assume "k = (SymZero, StateZero)"
      with dr opts have "ancestral_step choice M tau g q y = Inr (StateZero, y, g')"
        by (simp add: ancestral_step_def)
      then show "ancestral_loop choice M tau g (StateObj q) y = Some (Inr (y, g'))"
        by (simp add: ancestral_loop_unfold ancestral_loop_stop)
    }
    fix a q' assume "k = (SymObj a, StateObj q')"
    with dr opts have "ancestral_step choice M tau g q y = Inr (StateObj q', y @ [a], g')"
      by (simp add: ancestral_step_def)
    then show "ancestral_loop choice M tau g (StateObj q) y
                   = ancestral_loop choice M tau g' (StateObj q') (y @ [a])"
      by (rule ancestral_loop_unfold)
  qed
  from opts d keys entries steps show ?thesis by blast
qed

lemma M_two_Z_one: "Z_at M_two 1 (Suc 0) = 1" "Z_at M_two 1 0 = 1"
  by (simp_all add: Z_at_def scaled_mass_def scaled_def M_two_arcs M_two_rho)

lemma M_two_options:
  "ancestral_options M_two 1 (Suc 0) =
     Inr [((SymObj (Sym 0), StateObj 0), 1 / 2), ((SymZero, StateZero), 1 / 2)]"
  "ancestral_options M_two 1 0 = Inr [((SymZero, StateZero), 1)]"
  by (simp_all add: ancestral_options_scaled M_two_Z_one M_two_arcs M_two_rho scaled_def dict_of_def)

lemma M_two_draws:
  "draw choice_first () [((SymObj (Sym (0 :: nat)), StateObj (0 :: nat)), 1 / 2), ((SymZero, StateZero), 1 / 2)]
     = Inr ((SymObj (Sym 0), StateObj 0), ())"
  "draw choice_first () [((SymZero :: nat sym symval, StateZero :: nat stateval), 1)]
     = Inr ((SymZero, StateZero), ())"
  by (simp_all add: draw_def choice_first_def)

theorem ancestral_step_distribution_witness:
  "(0 :: real) < 1 \<and> Z_at M_two 1 1 \<noteq> 0 \<and> Z_at M_two 1 0 \<noteq> 0 \<and>
   ancestral_loop choice_first M_two 1 () (StateObj 1) []
     = ancestral_loop choice_first M_two 1 () (StateObj 0) [Sym 0] \<and>
   ancestral_loop choice_first M_two 1 () (StateObj 0) [Sym 0] = Some (Inr ([Sym 0], ()))"
proof -
  have t: "(0 :: real) < 1" by simp
  have z1: "Z_at M_two 1 (Suc 0) \<noteq> 0" and z0: "Z_at M_two 1 0 \<noteq> 0"
    by (simp_all add: M_two_Z_one)
  from ancestral_step_distribution [OF t z1, of choice_first "()" "[]"]
  have a: "ancestral_loop choice_first M_two 1 () (StateObj (Suc 0)) []
     = ancestral_loop choice_first M_two 1 () (StateObj 0) [Sym 0]"
    by (simp add: M_two_options M_two_draws)
  from ancestral_step_distribution [OF t z0, of choice_first "()" "[Sym 0]"]
  have b: "ancestral_loop choice_first M_two 1 () (StateObj 0) [Sym 0] = Some (Inr ([Sym 0], ()))"
    by (simp add: M_two_options M_two_draws)
  from a b z1 z0 show ?thesis by simp
qed

section \<open>Lookups in the belief map\<close>

lemma next_beliefs_keys:
  "fst ` set (next_beliefs M tau q) = {b \<in> set (Sigma M). 0 < symbol_mass M tau q b}"
proof -
  have "fst ` set (concat (map (\<lambda>b. if h b then [(b, k b)] else []) xs)) = {b \<in> set xs. h b}"
    for h :: "'a sym \<Rightarrow> bool" and k :: "'a sym \<Rightarrow> ('b \<times> real) list" and xs
    by (induction xs) auto
  then show ?thesis
    by (simp add: next_beliefs_def dict_of_keys)
qed

lemma dict_get_KeyError: "k \<notin> fst ` set d \<Longrightarrow> dict_get d k = Inl KeyError"
proof -
  assume "k \<notin> fst ` set d"
  then have "map_of d k = None" by (simp add: map_of_eq_None_iff)
  then show ?thesis by (simp add: dict_get_def)
qed

lemma dict_get_Inr: "k \<in> fst ` set d \<Longrightarrow> \<exists>v. dict_get d k = Inr v"
  by (cases "map_of d k") (auto simp: dict_get_def map_of_eq_None_iff)

lemma draw_InrD:
  assumes "draw choice g opts = Inr (k, g')"
  shows "sum_list (map snd opts) = 1 \<and> (\<forall>x \<in> set (map snd opts). 0 \<le> x) \<and>
         fst (choice g (map snd opts)) < length opts \<and>
         k = fst (opts ! fst (choice g (map snd opts)))"
proof (cases "map fst opts = [] \<or> (\<exists>x \<in> set (map snd opts). x < 0) \<or> sum_list (map snd opts) \<noteq> 1")
  case True
  then have "draw choice g opts = Inl ValueError"
    unfolding draw_def Let_def by (rule if_P)
  with assms show ?thesis by simp
next
  case False
  then have d: "draw choice g opts =
      (case choice g (map snd opts) of (i, g') \<Rightarrow>
         if i < length (map fst opts) then Inr (map fst opts ! i, g') else Inl IndexError)"
    unfolding draw_def Let_def by (rule if_not_P)
  obtain i g'' where c: "choice g (map snd opts) = (i, g'')"
    by (cases "choice g (map snd opts)")
  from assms d c have i: "i < length opts" "k = map fst opts ! i"
    by (auto split: if_splits)
  from False have "sum_list (map snd opts) = 1" "\<forall>x \<in> set (map snd opts). 0 \<le> x"
    by (auto simp: not_less)
  with i c show ?thesis by simp
qed

lemma draw_support:
  assumes "choice_sound choice" and "draw choice g opts = Inr (k, g')"
  shows "\<exists>p. (k, p) \<in> set opts \<and> 0 < p"
proof -
  let ?p = "map snd opts"
  let ?i = "fst (choice g ?p)"
  from draw_InrD [OF assms(2)] have v: "sum_list ?p = 1" "\<forall>x \<in> set ?p. 0 \<le> x"
    and i: "?i < length opts" and k: "k = fst (opts ! ?i)"
    by blast+
  from assms(1) v have pos: "0 < ?p ! ?i"
    unfolding choice_sound_def by blast
  from i have "opts ! ?i \<in> set opts" by simp
  moreover have "opts ! ?i = (k, ?p ! ?i)"
    using i k by (simp add: prod_eq_iff)
  ultimately have "(k, ?p ! ?i) \<in> set opts" by simp
  with pos show ?thesis by (intro exI conjI)
qed

lemma draw_error: "draw choice g opts = Inl e \<Longrightarrow> e \<noteq> KeyError"
  by (cases "choice g (map snd opts)") (auto simp: draw_def Let_def split: if_splits)

lemma lm_loop_no_key_error:
  assumes "lm_loop choice transform M tau g pq_a a y = Some res"
  shows "no_key_error choice transform M tau pq_a a res"
proof (rule lm_loop.raw_induct
    [where P = "\<lambda>choice transform M tau g pq_a a y res. no_key_error choice transform M tau pq_a a res",
      OF _ assms], goal_cases)
  case (1 loop choice transform M tau g pq_a a y res)
  show ?case
    unfolding no_key_error_def
  proof (intro impI)
    assume pre: "choice_sound choice \<and> 0 < tau \<and> support_ok transform M tau \<and>
      (a = EOS \<or> a \<in> fst ` set pq_a)"
    show "res \<noteq> Inl KeyError"
    proof (cases "a = EOS")
      case True
      with 1(2) have "res = Inr (y, g)" by simp
      then show ?thesis by simp
    next
      case False
      with pre have "a \<in> fst ` set pq_a" by simp
      from dict_get_Inr [OF this] obtain belief where b: "dict_get pq_a a = Inr belief" ..
      show ?thesis
      proof (cases "draw choice g belief")
        case (Inl e)
        with 1(2) False b have "res = Inl e" by simp
        moreover from Inl have "e \<noteq> KeyError"
          by (rule draw_error)
        ultimately show ?thesis by simp
      next
        case (Inr qg)
        obtain q g1 where qg: "qg = (q, g1)" by (cases qg)
        show ?thesis
        proof (cases "Z_at M tau q = 0")
          case True
          with pre have "lm_step M tau q = Inl ZeroDivisionError"
            by (simp add: lm_step_zero)
          with 1(2) False b Inr qg have "res = Inl ZeroDivisionError" by simp
          then show ?thesis by simp
        next
          case z: False
          with pre have st: "lm_step M tau q = Inr (next_symbols M tau q, next_beliefs M tau q)"
            by (simp add: lm_step_scaled)
          show ?thesis
          proof (cases "draw choice g1 (transform y (next_symbols M tau q))")
            case (Inl e)
            with 1(2) False b Inr qg st have "res = Inl e" by simp
            moreover from Inl have "e \<noteq> KeyError"
              by (rule draw_error)
            ultimately show ?thesis by simp
          next
            case d2: (Inr ag)
            obtain a' g2 where ag: "ag = (a', g2)" by (cases ag)
            from 1(2) False b Inr qg st d2 ag have
              call: "loop choice transform M tau g2 (next_beliefs M tau q) a' (y @ [a']) = Some res"
              by simp
            from pre have cs: "choice_sound choice" and so: "support_ok transform M tau"
              by simp_all
            from d2 ag have d2': "draw choice g1 (transform y (next_symbols M tau q)) = Inr (a', g2)"
              by simp
            from draw_support [OF cs d2'] obtain p where
              p: "(a', p) \<in> set (transform y (next_symbols M tau q))" "0 < p"
              by blast
            from so [unfolded support_ok_def, rule_format, of q a' p y] z p
            have "a' = EOS \<or> (a' \<in> set (Sigma M) \<and> 0 < symbol_mass M tau q a')"
              by simp
            then have "a' = EOS \<or> a' \<in> fst ` set (next_beliefs M tau q)"
              by (simp add: next_beliefs_keys)
            moreover note 1(1) [OF call, unfolded no_key_error_def]
            ultimately show ?thesis using pre by simp
          qed
        qed
      qed
    qed
  qed
qed

lemma scaled_mass_nonneg: "0 \<le> scaled_mass tau sel"
  by (induction sel) (auto simp: scaled_mass_def scaled_def)


lemma identity_support_ok: "support_ok (\<lambda>y p. p) M tau"
  unfolding support_ok_def
proof (intro allI impI)
  fix y :: "'a sym list" and q b p
  assume a: "Z_at M tau q \<noteq> 0 \<and> (b, p) \<in> set (next_symbols M tau q) \<and> 0 < p"
  let ?kvs = "map (\<lambda>b. (b, symbol_mass M tau q b / Z_at M tau q)) (Sigma M)"
  from a have "(b, p) \<in> insert (EOS, scaled tau (rho_at M q) / Z_at M tau q) (set (dict_of ?kvs))"
    using update_entries [of EOS "scaled tau (rho_at M q) / Z_at M tau q" "dict_of ?kvs"]
    by (auto simp: next_symbols_def)
  then have "b = EOS \<or> (b, p) \<in> set ?kvs"
    using dict_of_entries [of ?kvs] by auto
  moreover have "b \<in> set (Sigma M) \<and> 0 < symbol_mass M tau q b" if "(b, p) \<in> set ?kvs"
  proof -
    from that have m: "b \<in> set (Sigma M)" "p = symbol_mass M tau q b / Z_at M tau q"
      by auto
    have "0 \<le> symbol_mass M tau q b"
      by (simp add: symbol_mass_def scaled_mass_nonneg)
    moreover have "symbol_mass M tau q b \<noteq> 0"
      using a m(2) by auto
    ultimately show ?thesis using m(1) by simp
  qed
  ultimately show "b = EOS \<or> (b \<in> set (Sigma M) \<and> 0 < symbol_mass M tau q b)"
    by blast
qed

lemma choice_pos_sound: "choice_sound choice_pos"
  unfolding choice_sound_def
proof (intro allI impI)
  fix g :: unit and p :: "real list"
  assume a: "sum_list p = 1 \<and> (\<forall>x \<in> set p. 0 \<le> x)"
  have "\<exists>x \<in> set p. 0 < x"
  proof (rule ccontr)
    assume "\<not> (\<exists>x \<in> set p. 0 < x)"
    then have "\<forall>x \<in> set p. x \<le> 0" by (auto simp: not_less)
    then have "sum_list p \<le> 0" by (induction p) auto
    with a show False by simp
  qed
  then have l: "length (takeWhile (\<lambda>x. \<not> 0 < x) p) < length p \<and>
      0 < p ! length (takeWhile (\<lambda>x. \<not> 0 < x) p)"
    by (induction p) auto
  with l show "fst (choice_pos g p) < length p \<and> 0 < p ! fst (choice_pos g p)"
    by (simp add: choice_pos_def)
qed

text \<open>
  Claim C10. In the autoregressive sampler, for a positive temperature, the belief map
  computed at a state \<open>q\<close> has a key for exactly the symbols of the alphabet whose
  scaled arc mass from \<open>q\<close> is positive. So when the draw from the transformed
  distribution returns a symbol other than \<open>EOS\<close> that is not such a symbol, the lookup
  of the next iteration raises KeyError. When the generator only returns candidates of
  positive probability and every symbol of positive probability in a transformed
  distribution is \<open>EOS\<close> or has positive arc mass, no lookup fails, in the loop and in
  the whole sampler.
\<close>

theorem belief_map_lookup:
  fixes M :: "('a sym, 'q) fsa"
  assumes "0 < tau"
  shows
    "(Z_at M tau q \<noteq> 0 \<longrightarrow>
        (\<exists>pa pq_a. lm_step M tau q = Inr (pa, pq_a) \<and>
           fst ` set pq_a = {b \<in> set (Sigma M). 0 < symbol_mass M tau q b})) \<and>
     (a0 \<noteq> EOS \<and> dict_get pq0 a0 = Inr belief \<and> draw choice g belief = Inr (q, g1) \<and>
      Z_at M tau q \<noteq> 0 \<and> draw choice g1 (transform y (next_symbols M tau q)) = Inr (a, g2) \<and>
      a \<noteq> EOS \<and> \<not> (a \<in> set (Sigma M) \<and> 0 < symbol_mass M tau q a) \<longrightarrow>
        lm_loop choice transform M tau g pq0 a0 y = Some (Inl KeyError)) \<and>
     (choice_sound choice \<and> support_ok transform M tau \<longrightarrow>
        (a0 = EOS \<or> a0 \<in> fst ` set pq0 \<longrightarrow>
           lm_loop choice transform M tau g pq0 a0 y \<noteq> Some (Inl KeyError)) \<and>
        ancestral_lm choice str M tau g to_string transform \<noteq> Some (Inl KeyError))"
proof (intro conjI impI)
  assume "Z_at M tau q \<noteq> 0"
  with assms have "lm_step M tau q = Inr (next_symbols M tau q, next_beliefs M tau q)"
    by (rule lm_step_scaled)
  then show "\<exists>pa pq_a. lm_step M tau q = Inr (pa, pq_a) \<and>
           fst ` set pq_a = {b \<in> set (Sigma M). 0 < symbol_mass M tau q b}"
    using next_beliefs_keys [of M tau q] by blast
next
  assume h: "a0 \<noteq> EOS \<and> dict_get pq0 a0 = Inr belief \<and> draw choice g belief = Inr (q, g1) \<and>
      Z_at M tau q \<noteq> 0 \<and> draw choice g1 (transform y (next_symbols M tau q)) = Inr (a, g2) \<and>
      a \<noteq> EOS \<and> \<not> (a \<in> set (Sigma M) \<and> 0 < symbol_mass M tau q a)"
  then have st: "lm_step M tau q = Inr (next_symbols M tau q, next_beliefs M tau q)"
    using assms by (simp add: lm_step_scaled)
  from h have "a \<notin> fst ` set (next_beliefs M tau q)"
    unfolding next_beliefs_keys by simp
  then have "dict_get (next_beliefs M tau q) a = Inl KeyError"
    by (rule dict_get_KeyError)
  with h have nxt: "lm_loop choice transform M tau g2 (next_beliefs M tau q) a (y @ [a]) = Some (Inl KeyError)"
    by (subst lm_loop.simps) simp
  show "lm_loop choice transform M tau g pq0 a0 y = Some (Inl KeyError)"
    by (subst lm_loop.simps) (use h st nxt in simp)
next
  assume c: "choice_sound choice \<and> support_ok transform M tau"
  {
    fix pq :: "('a sym \<times> ('q \<times> real) list) list" and a' :: "'a sym"
    assume k: "a' = EOS \<or> a' \<in> fst ` set pq"
    have "lm_loop choice transform M tau g pq a' ys \<noteq> Some (Inl KeyError)" for ys
    proof
      assume "lm_loop choice transform M tau g pq a' ys = Some (Inl KeyError)"
      from lm_loop_no_key_error [OF this] c assms k show False
        by (simp add: no_key_error_def)
    qed
  }
  note loop = this
  {
    assume "a0 = EOS \<or> a0 \<in> fst ` set pq0"
    then show "lm_loop choice transform M tau g pq0 a0 y \<noteq> Some (Inl KeyError)"
      by (rule loop)
  }
  show "ancestral_lm choice str M tau g to_string transform \<noteq> Some (Inl KeyError)"
  proof (cases "initial_options M tau")
    case (Inl e)
    have "e \<noteq> KeyError"
    proof (cases "I M = []")
      case True
      with Inl show ?thesis by (simp add: initial_options_empty)
    next
      case False
      show ?thesis
      proof (cases "Z_init M tau = 0")
        case True
        with Inl False assms show ?thesis by (simp add: initial_options_zero)
      next
        case False
        with Inl assms show ?thesis by (simp add: initial_options_scaled)
      qed
    qed
    with Inl show ?thesis by (simp add: ancestral_lm_def)
  next
    case (Inr b)
    have "lm_loop choice transform M tau g [(Eps, b)] Eps [Eps] \<noteq> Some (Inl KeyError)"
      by (rule loop) simp
    with Inr show ?thesis
      by (auto simp: ancestral_lm_def split: option.splits sum.splits)
  qed
qed

theorem belief_map_lookup_witness:
  "(0 :: real) < 1 \<and> Z_at M_two 1 1 \<noteq> 0 \<and>
   (\<exists>pa pq_a. lm_step M_two 1 1 = Inr (pa, pq_a) \<and>
      fst ` set pq_a = {b \<in> set (Sigma M_two). 0 < symbol_mass M_two 1 1 b}) \<and>
   lm_loop choice_first (\<lambda>y p. [(Sym 0, 1)]) M_two 1 () [(Eps, [(0, 1)])] Eps [Eps]
     = Some (Inl KeyError) \<and>
   choice_sound choice_pos \<and> support_ok (\<lambda>y p. p) M_two 1 \<and>
   lm_loop choice_pos (\<lambda>y p. p) M_two 1 () [(Eps, [(1, 1)])] Eps [Eps] \<noteq> Some (Inl KeyError) \<and>
   ancestral_lm choice_pos (\<lambda>s. ''x'') M_two 1 () False (\<lambda>y p. p) \<noteq> Some (Inl KeyError)"
proof -
  have t: "(0 :: real) < 1" by simp
  have z1: "Z_at M_two 1 1 \<noteq> 0" and z0: "Z_at M_two 1 0 \<noteq> 0"
    by (simp_all add: M_two_Z_one)
  have g: "dict_get [(Eps :: nat sym, [(0 :: nat, 1 :: real)])] Eps = Inr [(0, 1)]"
    by (simp add: dict_get_def)
  have d1: "draw choice_first () [(0 :: nat, 1 :: real)] = Inr (0, ())"
    by (simp add: draw_def choice_first_def)
  have d2: "draw choice_first () [(Sym (0 :: nat), 1 :: real)] = Inr (Sym 0, ())"
    by (simp add: draw_def choice_first_def)
  have m: "symbol_mass M_two 1 0 (Sym 0) = 0"
    by (simp add: symbol_mass_def M_two_arcs scaled_mass_def)
  note a = belief_map_lookup [OF t, where M = M_two and q = 1, THEN conjunct1, rule_format, OF z1]
  have b: "lm_loop choice_first (\<lambda>y p. [(Sym 0, 1)]) M_two 1 () [(Eps, [(0, 1)])] Eps [Eps]
     = Some (Inl KeyError)"
    by (rule belief_map_lookup [OF t, where ?a0.0 = Eps and ?pq0.0 = "[(Eps, [(0, 1)])]"
          and belief = "[(0, 1)]" and choice = choice_first and g = "()" and q = 0 and ?g1.0 = "()"
          and M = M_two and transform = "\<lambda>y p. [(Sym 0, 1)]" and y = "[Eps]" and a = "Sym 0"
          and ?g2.0 = "()",
          THEN conjunct2, THEN conjunct1, rule_format])
      (simp add: g d1 d2 z0 m)
  note c = belief_map_lookup [OF t, where choice = choice_pos and transform = "\<lambda>y p. p"
      and M = M_two and ?a0.0 = Eps and ?pq0.0 = "[(Eps, [(1, 1)])]" and g = "()" and y = "[Eps]"
      and str = "\<lambda>s. ''x''" and to_string = False, THEN conjunct2, THEN conjunct2, rule_format,
      OF conjI [OF choice_pos_sound identity_support_ok]]
  from c have c1: "lm_loop choice_pos (\<lambda>y p. p) M_two 1 () [(Eps, [(1, 1)])] Eps [Eps] \<noteq> Some (Inl KeyError)"
    and c2: "ancestral_lm choice_pos (\<lambda>s. ''x'') M_two 1 () False (\<lambda>y p. p) \<noteq> Some (Inl KeyError)"
    by simp_all
  from t z1 a b choice_pos_sound identity_support_ok c1 c2 show ?thesis
    by (intro conjI)
qed

section \<open>Reachability\<close>

lemma set_step: "set (List.union S (concat (map nxt S))) = set S \<union> (\<Union>q \<in> set S. set (nxt q))"
  by auto

lemma closure_mono: "set S \<subseteq> set (closure nxt n S)"
proof (induction n arbitrary: S)
  case 0
  then show ?case by simp
next
  case (Suc n)
  have "set S \<subseteq> set (List.union S (concat (map nxt S)))" by auto
  also have "\<dots> \<subseteq> set (closure nxt n (List.union S (concat (map nxt S))))"
    by (rule Suc.IH)
  finally show ?case by simp
qed

lemma closure_closed_id: "closed_under nxt S \<Longrightarrow> set (closure nxt n S) = set S"
proof (induction n arbitrary: S)
  case 0
  then show ?case by simp
next
  case (Suc n)
  from Suc.prems have e: "set (List.union S (concat (map nxt S))) = set S"
    by (auto simp: closed_under_def)
  then have "closed_under nxt (List.union S (concat (map nxt S)))"
    using Suc.prems by (simp add: closed_under_def)
  from Suc.IH [OF this] e show ?case by simp
qed

lemma closure_saturates:
  assumes "finite U" and "\<And>q. set (nxt q) \<subseteq> U" and "card (U - set S) \<le> n"
  shows "closed_under nxt (closure nxt n S)"
  using assms(3)
proof (induction n arbitrary: S)
  case 0
  with assms(1) have "U \<subseteq> set S" by simp
  with assms(2) show ?case by (force simp: closed_under_def)
next
  case (Suc n)
  let ?S' = "List.union S (concat (map nxt S))"
  show ?case
  proof (cases "closed_under nxt S")
    case True
    then have "set (closure nxt (Suc n) S) = set S"
      by (rule closure_closed_id)
    with True show ?thesis by (simp add: closed_under_def del: closure.simps)
  next
    case False
    then obtain q x where qx: "q \<in> set S" "x \<in> set (nxt q)" "x \<notin> set S"
      by (auto simp: closed_under_def)
    then have x: "x \<in> U - set S" "x \<notin> U - set ?S'"
      using assms(2) by auto
    have "U - set ?S' \<subseteq> U - set S" by auto
    with x have "U - set ?S' \<subset> U - set S" by blast
    then have "card (U - set ?S') < card (U - set S)"
      using assms(1) by (intro psubset_card_mono) auto
    with Suc.prems have "card (U - set ?S') \<le> n" by simp
    from Suc.IH [OF this] show ?thesis by simp
  qed
qed

lemma closure_sound:
  "set (closure nxt n S) \<subseteq> {q. \<exists>p \<in> set S. (p, q) \<in> {(x, y). y \<in> set (nxt x)}\<^sup>*}"
proof (induction n arbitrary: S)
  case 0
  then show ?case by auto
next
  case (Suc n)
  let ?E = "{(x, y). y \<in> set (nxt x)}"
  let ?S' = "List.union S (concat (map nxt S))"
  have "\<exists>p \<in> set S. (p, q) \<in> ?E\<^sup>*" if "q \<in> set ?S'" for q
    using that by (auto simp: set_step)
  then have "{q. \<exists>p \<in> set ?S'. (p, q) \<in> ?E\<^sup>*} \<subseteq> {q. \<exists>p \<in> set S. (p, q) \<in> ?E\<^sup>*}"
    by (blast intro: rtrancl_trans)
  with Suc.IH [of ?S'] show ?case by simp
qed

lemma closed_reach:
  assumes "closed_under nxt X" and "(p, q) \<in> {(x, y). y \<in> set (nxt x)}\<^sup>*" and "p \<in> set X"
  shows "q \<in> set X"
  using assms(2,3)
proof (induction rule: rtrancl_induct)
  case base
  then show ?case .
next
  case (step y z)
  with assms(1) show ?case by (auto simp: closed_under_def)
qed

lemma closure_reach:
  assumes "finite U" and "\<And>q. set (nxt q) \<subseteq> U" and "card U \<le> n"
  shows "set (closure nxt n S) = {q. \<exists>p \<in> set S. (p, q) \<in> {(x, y). y \<in> set (nxt x)}\<^sup>*}"
proof
  show "set (closure nxt n S) \<subseteq> {q. \<exists>p \<in> set S. (p, q) \<in> {(x, y). y \<in> set (nxt x)}\<^sup>*}"
    by (rule closure_sound)
  have "card (U - set S) \<le> card U"
    using assms(1) by (intro card_mono) auto
  with assms(3) have "card (U - set S) \<le> n" by simp
  with assms(1,2) have c: "closed_under nxt (closure nxt n S)"
    by (rule closure_saturates)
  show "{q. \<exists>p \<in> set S. (p, q) \<in> {(x, y). y \<in> set (nxt x)}\<^sup>*} \<subseteq> set (closure nxt n S)"
    using closed_reach [OF c] closure_mono [of S nxt n] by blast
qed

lemma arcs_iff: "(a, j, w) \<in> set (arcs M i) \<longleftrightarrow> (i, a, j, w) \<in> set (delta M)"
  by (force simp: arcs_def)

lemma successors_iff: "j \<in> set (successors M i) \<longleftrightarrow> (\<exists>a w. (i, a, j, w) \<in> set (delta M))"
proof
  assume "j \<in> set (successors M i)"
  then obtain a w where "(a, j, w) \<in> set (arcs M i)"
    by (auto simp: successors_def)
  then show "\<exists>a w. (i, a, j, w) \<in> set (delta M)"
    by (auto simp: arcs_iff)
next
  assume "\<exists>a w. (i, a, j, w) \<in> set (delta M)"
  then obtain a w where "(a, j, w) \<in> set (arcs M i)"
    by (auto simp: arcs_iff)
  then have "(\<lambda>(a, j, w). j) (a, j, w) \<in> set (successors M i)"
    unfolding successors_def set_map by (rule imageI)
  then show "j \<in> set (successors M i)" by simp
qed

lemma successors_edges: "{(x, y). y \<in> set (successors M x)} = edges M"
  by (simp add: successors_iff edges_def)

lemma predecessors_edges: "{(x, y). y \<in> set (predecessors M x)} = (edges M)\<inverse>"
  by (force simp: predecessors_def edges_def)

lemma card_image_delta: "card (h ` set (delta M)) \<le> length (delta M)"
  by (rule order_trans [OF card_image_le card_length]) simp

lemma accessible_reach: "set (accessible M) = reached_from_initial M"
proof -
  let ?U = "(\<lambda>(i, a, j, w). j) ` set (delta M)"
  have "set (successors M q) \<subseteq> ?U" for q
    by (force simp: successors_iff)
  from closure_reach [of ?U "successors M" "length (delta M)" "remdups (map fst (I M))", OF _ this]
  show ?thesis
    by (simp add: accessible_def reached_from_initial_def successors_edges card_image_delta)
qed

lemma coaccessible_reach: "set (coaccessible M) = reaching_final M"
proof -
  let ?U = "(\<lambda>(i, a, j, w). i) ` set (delta M)"
  have "set (predecessors M q) \<subseteq> ?U" for q
    by (force simp: predecessors_def)
  from closure_reach [of ?U "predecessors M" "length (delta M)" "remdups (finals M)", OF _ this]
  show ?thesis
    by (simp add: coaccessible_def reaching_final_def predecessors_edges card_image_delta
        rtrancl_converse)
qed

section \<open>The trimmed automaton\<close>

lemma fold_update_fresh:
  "distinct (map fst (d0 @ kvs)) \<Longrightarrow>
     fold (\<lambda>kv d. AList.update (fst kv) (snd kv) d) kvs d0 = d0 @ kvs"
proof (induction kvs arbitrary: d0)
  case Nil
  then show ?case by simp
next
  case (Cons kv kvs)
  from Cons.prems have f: "fst kv \<notin> fst ` set d0" by auto
  have u: "AList.update (fst kv) (snd kv) d0 = d0 @ [kv]"
    using update_fresh [OF f, of "snd kv"] by simp
  from Cons.prems have "distinct (map fst ((d0 @ [kv]) @ kvs))" by simp
  from Cons.IH [OF this] u show ?case by simp
qed

lemma dict_of_distinct_id: "distinct (map fst kvs) \<Longrightarrow> dict_of kvs = kvs"
  using fold_update_fresh [of "[]" kvs] by (simp add: dict_of_def)

lemma add_arc_fields:
  "lam (add_arc N i a j w) = lam N"
  "rho (add_arc N i a j w) = rho N"
  "R (add_arc N i a j w) = R N"
  "is_fst (add_arc N i a j w) = is_fst N"
  "set (delta (add_arc N i a j w)) = insert (i, a, j, w) (set (delta N))"
  "set (Q (add_arc N i a j w)) = insert i (insert j (set (Q N)))"
  by (auto simp: add_arc_def)

lemma inner_fold_same:
  "lam (fold (\<lambda>(l, j, w) N2. if j \<in> X then add_arc N2 i l j w else N2) xs N) = lam N \<and>
   rho (fold (\<lambda>(l, j, w) N2. if j \<in> X then add_arc N2 i l j w else N2) xs N) = rho N \<and>
   R (fold (\<lambda>(l, j, w) N2. if j \<in> X then add_arc N2 i l j w else N2) xs N) = R N \<and>
   is_fst (fold (\<lambda>(l, j, w) N2. if j \<in> X then add_arc N2 i l j w else N2) xs N) = is_fst N"
  by (induction xs arbitrary: N) (simp_all add: add_arc_fields case_prod_unfold)

lemma inner_fold_delta:
  "set (delta (fold (\<lambda>(l, j, w) N2. if j \<in> X then add_arc N2 i l j w else N2) xs N)) =
     set (delta N) \<union> {(i, l, j, w) | l j w. (l, j, w) \<in> set xs \<and> j \<in> X}"
proof (induction xs arbitrary: N)
  case Nil
  then show ?case by simp
next
  case (Cons x xs)
  obtain l j w where x: "x = (l, j, w)" by (cases x)
  show ?case
    by (cases "j \<in> X") (auto simp: x Cons.IH add_arc_fields)
qed

lemma inner_fold_Q:
  "set (Q (fold (\<lambda>(l, j, w) N2. if j \<in> X then add_arc N2 i l j w else N2) xs N)) =
     set (Q N) \<union> {q. \<exists>l j w. (l, j, w) \<in> set xs \<and> j \<in> X \<and> (q = i \<or> q = j)}"
proof (induction xs arbitrary: N)
  case Nil
  then show ?case by simp
next
  case (Cons x xs)
  obtain l j w where x: "x = (l, j, w)" by (cases x)
  show ?case
    by (cases "j \<in> X") (auto simp: x Cons.IH add_arc_fields)
qed

lemma outer_fold_same:
  "lam (fold (\<lambda>i. fold (\<lambda>(l, j, w) N2. if j \<in> X then add_arc N2 i l j w else N2) (arcs M i)) xs N) = lam N \<and>
   rho (fold (\<lambda>i. fold (\<lambda>(l, j, w) N2. if j \<in> X then add_arc N2 i l j w else N2) (arcs M i)) xs N) = rho N \<and>
   R (fold (\<lambda>i. fold (\<lambda>(l, j, w) N2. if j \<in> X then add_arc N2 i l j w else N2) (arcs M i)) xs N) = R N \<and>
   is_fst (fold (\<lambda>i. fold (\<lambda>(l, j, w) N2. if j \<in> X then add_arc N2 i l j w else N2) (arcs M i)) xs N) = is_fst N"
  by (induction xs arbitrary: N) (simp_all add: inner_fold_same)

lemma outer_fold_delta:
  "set (delta (fold (\<lambda>i. fold (\<lambda>(l, j, w) N2. if j \<in> X then add_arc N2 i l j w else N2) (arcs M i)) xs N)) =
     set (delta N) \<union> {(i, l, j, w) | i l j w. i \<in> set xs \<and> (i, l, j, w) \<in> set (delta M) \<and> j \<in> X}"
  by (induction xs arbitrary: N) (auto simp: inner_fold_delta arcs_iff)

lemma outer_fold_Q:
  "set (Q (fold (\<lambda>i. fold (\<lambda>(l, j, w) N2. if j \<in> X then add_arc N2 i l j w else N2) (arcs M i)) xs N)) =
     set (Q N) \<union> {q. \<exists>i l j w. i \<in> set xs \<and> (i, l, j, w) \<in> set (delta M) \<and> j \<in> X \<and> (q = i \<or> q = j)}"
proof (induction xs arbitrary: N)
  case Nil
  then show ?case by simp
next
  case (Cons a xs)
  have "set (Q N) \<union> {q. \<exists>l j w. (a, l, j, w) \<in> set (delta M) \<and> j \<in> X \<and> (q = a \<or> q = j)} \<union>
      {q. \<exists>i l j w. i \<in> set xs \<and> (i, l, j, w) \<in> set (delta M) \<and> j \<in> X \<and> (q = i \<or> q = j)}
    = set (Q N) \<union> {q. \<exists>i l j w. i \<in> set (a # xs) \<and> (i, l, j, w) \<in> set (delta M) \<and> j \<in> X \<and> (q = i \<or> q = j)}"
    by (simp only: set_simps) blast
  then show ?case
    by (simp add: Cons.IH inner_fold_Q arcs_iff)
qed

lemma add_trim_arcs_unfold:
  "add_trim_arcs M N AC =
     fold (\<lambda>i. fold (\<lambda>(l, j, w) N2. if j \<in> set AC then add_arc N2 i l j w else N2) (arcs M i)) AC N"
  by (simp add: add_trim_arcs_def)

lemma set_I_fold_same:
  "delta (fold (\<lambda>(q, w) N. if q \<in> X then set_I N q w else N) xs N) = delta N \<and>
   rho (fold (\<lambda>(q, w) N. if q \<in> X then set_I N q w else N) xs N) = rho N \<and>
   R (fold (\<lambda>(q, w) N. if q \<in> X then set_I N q w else N) xs N) = R N \<and>
   is_fst (fold (\<lambda>(q, w) N. if q \<in> X then set_I N q w else N) xs N) = is_fst N"
  by (induction xs arbitrary: N) (simp_all add: set_I_def case_prod_unfold)

lemma set_F_fold_same:
  "delta (fold (\<lambda>(q, w) N. if q \<in> X then set_F N q w else N) xs N) = delta N \<and>
   lam (fold (\<lambda>(q, w) N. if q \<in> X then set_F N q w else N) xs N) = lam N \<and>
   R (fold (\<lambda>(q, w) N. if q \<in> X then set_F N q w else N) xs N) = R N \<and>
   is_fst (fold (\<lambda>(q, w) N. if q \<in> X then set_F N q w else N) xs N) = is_fst N"
  by (induction xs arbitrary: N) (simp_all add: set_F_def case_prod_unfold)

lemma set_I_fold_lam:
  "lam (fold (\<lambda>(q, w) N. if q \<in> X then set_I N q w else N) xs N) =
     fold (\<lambda>kv d. AList.update (fst kv) (snd kv) d) (filter (\<lambda>(q, w). q \<in> X) xs) (lam N)"
  by (induction xs arbitrary: N) (simp_all add: set_I_def case_prod_unfold)

lemma set_F_fold_rho:
  "rho (fold (\<lambda>(q, w) N. if q \<in> X then set_F N q w else N) xs N) =
     fold (\<lambda>kv d. AList.update (fst kv) (snd kv) d) (filter (\<lambda>(q, w). q \<in> X) xs) (rho N)"
  by (induction xs arbitrary: N) (simp_all add: set_F_def case_prod_unfold)

lemma set_I_fold_Q:
  "set (Q (fold (\<lambda>(q, w) N. if q \<in> X then set_I N q w else N) xs N)) =
     set (Q N) \<union> (fst ` set xs \<inter> X)"
  by (induction xs arbitrary: N) (auto simp: set_I_def case_prod_unfold)

lemma set_F_fold_Q:
  "set (Q (fold (\<lambda>(q, w) N. if q \<in> X then set_F N q w else N) xs N)) =
     set (Q N) \<union> (fst ` set xs \<inter> X)"
  by (induction xs arbitrary: N) (auto simp: set_F_def case_prod_unfold)

lemma set_retained: "set (retained M) = reached_from_initial M \<inter> reaching_final M"
  by (auto simp: retained_def accessible_reach coaccessible_reach)

lemma trim_kind: "R (trim M) = R M \<and> is_fst (trim M) = is_fst M"
  by (simp add: trim_def Let_def set_F_fold_same set_I_fold_same add_trim_arcs_unfold outer_fold_same
      spawn_def)

lemma trim_delta:
  "set (delta (trim M)) =
     {(i, l, j, w). (i, l, j, w) \<in> set (delta M) \<and> i \<in> set (retained M) \<and> j \<in> set (retained M)}"
  by (auto simp: trim_def Let_def set_F_fold_same set_I_fold_same add_trim_arcs_unfold outer_fold_delta
      spawn_def)

lemma trim_lam: "lam (trim M) = dict_of (filter (\<lambda>(q, w). q \<in> set (retained M)) (lam M))"
  by (simp add: trim_def Let_def set_F_fold_same set_I_fold_lam add_trim_arcs_unfold outer_fold_same
      spawn_def dict_of_def I_def)

lemma trim_rho: "rho (trim M) = dict_of (filter (\<lambda>(q, w). q \<in> set (retained M)) (rho M))"
  by (simp add: trim_def Let_def set_F_fold_rho set_I_fold_same add_trim_arcs_unfold outer_fold_same
      spawn_def dict_of_def F_def)

lemma trim_Q_raw:
  "set (Q (trim M)) =
     {q. \<exists>i l j w. i \<in> set (retained M) \<and> (i, l, j, w) \<in> set (delta M) \<and> j \<in> set (retained M) \<and>
          (q = i \<or> q = j)} \<union>
     (fst ` set (lam M) \<inter> set (retained M)) \<union> (fst ` set (rho M) \<inter> set (retained M))"
  by (simp add: trim_def Let_def set_F_fold_Q set_I_fold_Q add_trim_arcs_unfold outer_fold_Q
      spawn_def I_def F_def)

lemma edge_back: "(i, j) \<in> edges M \<Longrightarrow> j \<in> reaching_final M \<Longrightarrow> i \<in> reaching_final M"
  by (auto simp: reaching_final_def intro: converse_rtrancl_into_rtrancl)

lemma edge_forth: "(i, j) \<in> edges M \<Longrightarrow> i \<in> reached_from_initial M \<Longrightarrow> j \<in> reached_from_initial M"
  by (auto simp: reached_from_initial_def intro: rtrancl_into_rtrancl)

lemma trim_Q: "set (Q (trim M)) = set (retained M)"
proof
  show "set (Q (trim M)) \<subseteq> set (retained M)"
    unfolding trim_Q_raw by auto
  show "set (retained M) \<subseteq> set (Q (trim M))"
  proof
    fix q assume q: "q \<in> set (retained M)"
    then obtain p where p: "p \<in> fst ` set (I M)" "(p, q) \<in> (edges M)\<^sup>*"
      by (auto simp: set_retained reached_from_initial_def)
    from p(2) show "q \<in> set (Q (trim M))"
    proof (cases rule: rtranclE)
      case base
      with p(1) q show ?thesis
        unfolding trim_Q_raw by (simp add: I_def)
    next
      case (step r)
      from step(1) p(1) have "r \<in> reached_from_initial M"
        by (auto simp: reached_from_initial_def)
      moreover from step(2) q have "r \<in> reaching_final M"
        by (auto simp: set_retained intro: edge_back)
      ultimately have r: "r \<in> set (retained M)"
        by (simp add: set_retained)
      from step(2) obtain l w where "(r, l, q, w) \<in> set (delta M)"
        by (auto simp: edges_def)
      with r q show ?thesis
        unfolding trim_Q_raw by blast
    qed
  qed
qed

lemma retained_inter: "set (retained M) = set (accessible M) \<inter> set (coaccessible M)"
  by (auto simp: retained_def)

lemma trim_I_wf:
  "well_formed M \<Longrightarrow> I (trim M) = filter (\<lambda>(q, w). q \<in> set (retained M)) (I M)"
  by (simp add: I_def trim_lam well_formed_def dict_of_distinct_id distinct_map_filter)

lemma trim_F_wf:
  "well_formed M \<Longrightarrow> F (trim M) = filter (\<lambda>(q, w). q \<in> set (retained M)) (F M)"
  by (simp add: F_def trim_rho well_formed_def dict_of_distinct_id distinct_map_filter)

lemma M_trim_acc: "accessible M_trim = [0, 1, 2]"
  by code_simp

lemma M_trim_co: "coaccessible M_trim = [1, 0, 3]"
  by code_simp

lemma M_trim_wf: "well_formed M_trim"
  by (simp add: well_formed_def M_trim_def)

text \<open>
  Claim C2. \<open>trim\<close> is a total function: it returns an automaton for every input. The
  accessible states are those reached from an initial state and the co-accessible ones
  those that reach a final state. The states of the result are exactly the states in
  both sets; its arcs are exactly the arcs of the input with source and destination in
  both sets, label and weight as they were; its initial and final weights are those of
  the input for the states in both sets, unchanged; semiring and kind are the input's.
\<close>

theorem trim_contract:
  assumes "well_formed M"
  shows "set (accessible M) = reached_from_initial M \<and>
         set (coaccessible M) = reaching_final M \<and>
         set (Q (trim M)) = set (accessible M) \<inter> set (coaccessible M) \<and>
         set (delta (trim M)) =
           {(i, l, j, w). (i, l, j, w) \<in> set (delta M) \<and>
              i \<in> set (accessible M) \<inter> set (coaccessible M) \<and>
              j \<in> set (accessible M) \<inter> set (coaccessible M)} \<and>
         I (trim M) = filter (\<lambda>(q, w). q \<in> set (accessible M) \<inter> set (coaccessible M)) (I M) \<and>
         F (trim M) = filter (\<lambda>(q, w). q \<in> set (accessible M) \<inter> set (coaccessible M)) (F M) \<and>
         R (trim M) = R M \<and> is_fst (trim M) = is_fst M"
  using assms
  by (simp add: accessible_reach coaccessible_reach trim_Q trim_delta trim_I_wf trim_F_wf trim_kind
      set_retained)

theorem trim_contract_witness:
  "well_formed M_trim \<and>
   set (Q (trim M_trim)) = {0, 1} \<and>
   set (delta (trim M_trim)) = {(0, Sym 0, 1, 6 / 10)} \<and>
   I (trim M_trim) = [(0, 1)] \<and>
   F (trim M_trim) = [(1, 1)]"
proof -
  have x: "set (accessible M_trim) \<inter> set (coaccessible M_trim) = {0, 1}"
    by (auto simp: M_trim_acc M_trim_co)
  have d: "delta M_trim = [(0, Sym 0, 1, 6 / 10), (0, Sym 1, 2, 4 / 10), (3, Sym 0, 1, 1)]"
    and i: "I M_trim = [(0, 1)]" and f: "F M_trim = [(1, 1), (2, 0)]"
    by (simp_all add: M_trim_def I_def F_def)
  from trim_contract [OF M_trim_wf] show ?thesis
    unfolding x d i f by (auto simp: M_trim_wf)
qed

section \<open>Trimming twice\<close>

lemma reach_back: "(p, q) \<in> (edges M)\<^sup>* \<Longrightarrow> q \<in> reaching_final M \<Longrightarrow> p \<in> reaching_final M"
  by (auto simp: reaching_final_def intro: rtrancl_trans)

lemma path_within:
  assumes "(p, q) \<in> (edges M)\<^sup>*" and "p \<in> reached_from_initial M" and "q \<in> reaching_final M"
  shows "(p, q) \<in> (edges M \<inter> set (retained M) \<times> set (retained M))\<^sup>*"
  using assms(1,2)
proof (induction rule: converse_rtrancl_induct)
  case base
  then show ?case by simp
next
  case (step p r)
  from step(1,4) have r: "r \<in> reached_from_initial M"
    by (rule edge_forth)
  from step(2) assms(3) have "r \<in> reaching_final M"
    by (rule reach_back)
  moreover with step(1) have "p \<in> reaching_final M"
    by (rule edge_back)
  ultimately have "(p, r) \<in> edges M \<inter> set (retained M) \<times> set (retained M)"
    using step(1,4) r by (simp add: set_retained)
  then show ?case
    using step.IH [OF r] by (rule converse_rtrancl_into_rtrancl)
qed

lemma stays_within:
  assumes "(p, q) \<in> (E \<inter> X \<times> X)\<^sup>*" and "p \<in> X"
  shows "q \<in> X"
  using assms by (induction rule: rtrancl_induct) auto

lemma trim_edges: "edges (trim M) = edges M \<inter> set (retained M) \<times> set (retained M)"
  by (auto simp: edges_def trim_delta)

lemma trim_initial_keys: "fst ` set (I (trim M)) = fst ` set (I M) \<inter> set (retained M)"
  by (force simp: I_def trim_lam dict_of_keys)

lemma map_of_filter_keys:
  "map_of (filter (\<lambda>(q, w). q \<in> X) xs) q = (if q \<in> X then map_of xs q else None)"
  by (induction xs) auto

lemma trim_rho_at:
  assumes "well_formed M"
  shows "rho_at (trim M) q = (if q \<in> set (retained M) then rho_at M q else 0)"
proof -
  from assms have "rho (trim M) = filter (\<lambda>(q, w). q \<in> set (retained M)) (rho M)"
    using trim_F_wf [of M] by (simp add: F_def)
  then show ?thesis
    by (simp add: rho_at_def map_of_filter_keys)
qed

lemma trim_finals:
  assumes "well_formed M"
  shows "set (finals (trim M)) = set (finals M) \<inter> set (retained M)"
proof -
  from assms have "F (trim M) = filter (\<lambda>(q, w). q \<in> set (retained M)) (F M)"
    by (rule trim_F_wf)
  then have "fst ` set (F (trim M)) = fst ` set (F M) \<inter> set (retained M)"
    by force
  then show ?thesis
    by (auto simp: finals_def trim_rho_at [OF assms])
qed

lemma retained_trim:
  assumes "well_formed M"
  shows "set (retained (trim M)) = set (retained M)"
proof
  show "set (retained (trim M)) \<subseteq> set (retained M)"
  proof
    fix q assume "q \<in> set (retained (trim M))"
    then obtain p where "p \<in> fst ` set (I (trim M))" "(p, q) \<in> (edges (trim M))\<^sup>*"
      by (auto simp: set_retained [of "trim M"] reached_from_initial_def)
    then show "q \<in> set (retained M)"
      unfolding trim_edges trim_initial_keys by (auto intro: stays_within)
  qed
  show "set (retained M) \<subseteq> set (retained (trim M))"
  proof
    fix q assume q: "q \<in> set (retained M)"
    then have qa: "q \<in> reached_from_initial M" and qc: "q \<in> reaching_final M"
      by (simp_all add: set_retained)
    from qa obtain p where p: "p \<in> fst ` set (I M)" "(p, q) \<in> (edges M)\<^sup>*"
      by (auto simp: reached_from_initial_def)
    from p(1) have pa: "p \<in> reached_from_initial M"
      by (auto simp: reached_from_initial_def)
    moreover from p(2) qc have "p \<in> reaching_final M"
      by (rule reach_back)
    ultimately have "p \<in> fst ` set (I (trim M))"
      using p(1) by (simp add: trim_initial_keys set_retained)
    moreover from path_within [OF p(2) pa qc] have "(p, q) \<in> (edges (trim M))\<^sup>*"
      by (simp add: trim_edges)
    ultimately have 1: "q \<in> reached_from_initial (trim M)"
      unfolding reached_from_initial_def by blast
    from qc obtain f where f: "f \<in> set (finals M)" "(q, f) \<in> (edges M)\<^sup>*"
      by (auto simp: reaching_final_def)
    from f(1) have fc: "f \<in> reaching_final M"
      by (auto simp: reaching_final_def)
    have "(q, f) \<in> (edges M)\<^sup>* \<Longrightarrow> q \<in> reached_from_initial M \<Longrightarrow> f \<in> reached_from_initial M" for q f
      by (induction rule: rtrancl_induct) (auto intro: edge_forth)
    from this [OF f(2) qa] fc f(1) have "f \<in> set (finals (trim M))"
      by (simp add: trim_finals [OF assms] set_retained)
    moreover from path_within [OF f(2) qa fc] have "(q, f) \<in> (edges (trim M))\<^sup>*"
      by (simp add: trim_edges)
    ultimately have 2: "q \<in> reaching_final (trim M)"
      unfolding reaching_final_def by blast
    from 1 2 show "q \<in> set (retained (trim M))"
      by (simp add: set_retained)
  qed
qed

lemma trim_lam_keys: "fst ` set (lam (trim M)) \<subseteq> set (retained M)"
  by (auto simp: trim_lam dict_of_keys)

lemma trim_rho_keys: "fst ` set (rho (trim M)) \<subseteq> set (retained M)"
  by (auto simp: trim_rho dict_of_keys)

lemma filter_all_keys: "fst ` set xs \<subseteq> X \<Longrightarrow> filter (\<lambda>(q, w). q \<in> X) xs = xs"
  by (induction xs) auto

lemma trim_lam_dict: "dict_of (lam (trim M)) = lam (trim M)"
  by (simp add: trim_lam dict_of_distinct_id dict_of_distinct)

lemma trim_rho_dict: "dict_of (rho (trim M)) = rho (trim M)"
  by (simp add: trim_rho dict_of_distinct_id dict_of_distinct)

text \<open>
  Claim C9. Trimming a trimmed automaton changes nothing: the states, the arcs, the
  initial weights and the final weights of \<open>trim (trim M)\<close> are those of \<open>trim M\<close>.
\<close>

theorem trim_idempotent:
  assumes "well_formed M"
  shows "set (Q (trim (trim M))) = set (Q (trim M)) \<and>
         set (delta (trim (trim M))) = set (delta (trim M)) \<and>
         I (trim (trim M)) = I (trim M) \<and>
         F (trim (trim M)) = F (trim M)"
proof -
  note r = retained_trim [OF assms]
  have q: "set (Q (trim (trim M))) = set (Q (trim M))"
    by (simp add: trim_Q r)
  have d: "set (delta (trim (trim M))) = set (delta (trim M))"
    unfolding trim_delta [of "trim M"] r by (auto simp: trim_delta)
  have i: "I (trim (trim M)) = I (trim M)"
    unfolding I_def trim_lam [of "trim M"] r
    by (simp add: filter_all_keys [OF trim_lam_keys] trim_lam_dict)
  have f: "F (trim (trim M)) = F (trim M)"
    unfolding F_def trim_rho [of "trim M"] r
    by (simp add: filter_all_keys [OF trim_rho_keys] trim_rho_dict)
  from q d i f show ?thesis by simp
qed

theorem trim_idempotent_witness:
  "well_formed M_trim \<and>
   set (Q (trim (trim M_trim))) = set (Q (trim M_trim)) \<and>
   set (delta (trim (trim M_trim))) = set (delta (trim M_trim)) \<and>
   I (trim (trim M_trim)) = I (trim M_trim) \<and>
   F (trim (trim M_trim)) = F (trim M_trim)"
  using trim_idempotent [OF M_trim_wf] M_trim_wf by simp

section \<open>The two samplers have one distribution\<close>




































lemma M_two_initial: "initial_options M_two 1 = Inr [(Suc 0, 1)]"
  by (simp add: initial_options_def M_two_I sampler_w_def divE_def dict_of_def)



section \<open>Two runs with one seed\<close>

lemma same_stream_sym:
  "same_stream choice1 choice2 sim \<Longrightarrow> same_stream choice2 choice1 (\<lambda>a b. sim b a)"
  by (simp add: same_stream_def)

lemma same_result_sym:
  "same_result sim r1 r2 \<Longrightarrow> same_result (\<lambda>a b. sim b a) r2 r1"
  by (cases r1) (auto simp: same_result_def)

lemma same_outcomeI:
  assumes "\<And>r1. o1 = Some r1 \<Longrightarrow> \<exists>r2. o2 = Some r2 \<and> same_result sim r1 r2"
    and "\<And>r2. o2 = Some r2 \<Longrightarrow> \<exists>r1. o1 = Some r1"
  shows "same_outcome sim o1 o2"
proof (cases o1)
  case None
  with assms(2) have "o2 = None" by (cases o2) auto
  with None show ?thesis by (simp add: same_outcome_def)
next
  case (Some r1)
  with assms(1) show ?thesis by (simp add: same_outcome_def)
qed

lemma draw_same:
  assumes "same_stream choice1 choice2 sim" and "sim g1 g2"
  shows "same_result sim (draw choice1 g1 opts) (draw choice2 g2 opts)"
proof -
  let ?p = "map snd opts"
  obtain i h1 where c1: "choice1 g1 ?p = (i, h1)" by (cases "choice1 g1 ?p")
  obtain j h2 where c2: "choice2 g2 ?p = (j, h2)" by (cases "choice2 g2 ?p")
  from assms c1 c2 have "i = j" "sim h1 h2"
    unfolding same_stream_def by (metis fst_conv, metis snd_conv)
  with c1 c2 show ?thesis
    by (simp add: draw_def Let_def same_result_def)
qed

lemma ancestral_step_same:
  assumes "same_stream choice1 choice2 sim" and "sim g1 g2"
  shows "case ancestral_step choice1 M tau g1 q y of
           Inl e \<Rightarrow> ancestral_step choice2 M tau g2 q y = Inl e
         | Inr (q', y', h1) \<Rightarrow>
             (\<exists>h2. ancestral_step choice2 M tau g2 q y = Inr (q', y', h2) \<and> sim h1 h2)"
proof (cases "ancestral_options M tau q")
  case (Inl e)
  then show ?thesis by (simp add: ancestral_step_def)
next
  case (Inr opts)
  from draw_same [OF assms, of opts] Inr show ?thesis
    by (cases "draw choice1 g1 opts") (auto simp: ancestral_step_def same_result_def)
qed

lemma ancestral_loop_fwd:
  assumes "ancestral_loop choice1 M tau g1 q y = Some r1"
  shows "same_stream choice1 choice2 sim \<longrightarrow>
           (\<forall>g2. sim g1 g2 \<longrightarrow>
              (\<exists>r2. ancestral_loop choice2 M tau g2 q y = Some r2 \<and> same_result sim r1 r2))"
proof (rule ancestral_loop.raw_induct
    [where P = "\<lambda>choice1 M tau g1 q y r1. same_stream choice1 choice2 sim \<longrightarrow>
           (\<forall>g2. sim g1 g2 \<longrightarrow>
              (\<exists>r2. ancestral_loop choice2 M tau g2 q y = Some r2 \<and> same_result sim r1 r2))",
      OF _ assms], goal_cases)
  case (1 loop choice1 M tau g1 q y r1)
  show ?case
  proof (intro impI allI)
    fix g2
    assume ss: "same_stream choice1 choice2 sim" and sim: "sim g1 g2"
    show "\<exists>r2. ancestral_loop choice2 M tau g2 q y = Some r2 \<and> same_result sim r1 r2"
    proof (cases q)
      case StateZero
      with 1(2) have "r1 = Inr (y, g1)" by simp
      moreover from StateZero have "ancestral_loop choice2 M tau g2 q y = Some (Inr (y, g2))"
        by (simp add: ancestral_loop_stop)
      ultimately show ?thesis using sim by (simp add: same_result_def)
    next
      case (StateObj s)
      note st = ancestral_step_same [OF ss sim, of M tau s y]
      show ?thesis
      proof (cases "ancestral_step choice1 M tau g1 s y")
        case (Inl e)
        with 1(2) StateObj have r: "r1 = Inl e" by simp
        from st Inl have "ancestral_step choice2 M tau g2 s y = Inl e" by simp
        then have "ancestral_loop choice2 M tau g2 q y = Some (Inl e)"
          unfolding StateObj by (rule ancestral_loop_step_error)
        with r show ?thesis by (simp add: same_result_def)
      next
        case (Inr t)
        obtain q' y' h1 where t: "t = (q', y', h1)" by (cases t)
        from 1(2) StateObj Inr t have call: "loop choice1 M tau h1 q' y' = Some r1" by simp
        from st Inr t obtain h2 where
          s2: "ancestral_step choice2 M tau g2 s y = Inr (q', y', h2)" and h: "sim h1 h2"
          by auto
        from 1(1) [OF call] ss h obtain r2 where
          "ancestral_loop choice2 M tau h2 q' y' = Some r2" "same_result sim r1 r2"
          by blast
        moreover have "ancestral_loop choice2 M tau g2 q y = ancestral_loop choice2 M tau h2 q' y'"
          unfolding StateObj using s2 by (rule ancestral_loop_unfold)
        ultimately show ?thesis by simp
      qed
    qed
  qed
qed

lemma ancestral_loop_same:
  assumes "same_stream choice1 choice2 sim" and "sim g1 g2"
  shows "same_outcome sim (ancestral_loop choice1 M tau g1 q y) (ancestral_loop choice2 M tau g2 q y)"
proof (rule same_outcomeI)
  fix r1 assume "ancestral_loop choice1 M tau g1 q y = Some r1"
  from ancestral_loop_fwd [OF this] assms
  show "\<exists>r2. ancestral_loop choice2 M tau g2 q y = Some r2 \<and> same_result sim r1 r2"
    by blast
next
  fix r2 assume "ancestral_loop choice2 M tau g2 q y = Some r2"
  from ancestral_loop_fwd [OF this, of choice1 "\<lambda>a b. sim b a"] same_stream_sym [OF assms(1)] assms(2)
  show "\<exists>r1. ancestral_loop choice1 M tau g1 q y = Some r1"
    by blast
qed

lemma lm_loop_fwd:
  assumes "lm_loop choice1 transform M tau g1 pq_a a y = Some r1"
  shows "same_stream choice1 choice2 sim \<longrightarrow>
           (\<forall>g2. sim g1 g2 \<longrightarrow>
              (\<exists>r2. lm_loop choice2 transform M tau g2 pq_a a y = Some r2 \<and> same_result sim r1 r2))"
proof (rule lm_loop.raw_induct
    [where P = "\<lambda>choice1 transform M tau g1 pq_a a y r1. same_stream choice1 choice2 sim \<longrightarrow>
           (\<forall>g2. sim g1 g2 \<longrightarrow>
              (\<exists>r2. lm_loop choice2 transform M tau g2 pq_a a y = Some r2 \<and> same_result sim r1 r2))",
      OF _ assms], goal_cases)
  case (1 loop choice1 transform M tau g1 pq_a a y r1)
  show ?case
  proof (intro impI allI)
    fix g2
    assume ss: "same_stream choice1 choice2 sim" and sim: "sim g1 g2"
    show "\<exists>r2. lm_loop choice2 transform M tau g2 pq_a a y = Some r2 \<and> same_result sim r1 r2"
    proof (cases "a = EOS")
      case True
      with 1(2) have "r1 = Inr (y, g1)" by simp
      moreover from True have "lm_loop choice2 transform M tau g2 pq_a a y = Some (Inr (y, g2))"
        by (subst lm_loop.simps) simp
      ultimately show ?thesis using sim by (simp add: same_result_def)
    next
      case False
      show ?thesis
      proof (cases "dict_get pq_a a")
        case (Inl e)
        with 1(2) False have "r1 = Inl e" by simp
        moreover from Inl False have "lm_loop choice2 transform M tau g2 pq_a a y = Some (Inl e)"
          by (subst lm_loop.simps) simp
        ultimately show ?thesis by (simp add: same_result_def)
      next
        case b: (Inr belief)
        note d1 = draw_same [OF ss sim, of belief]
        show ?thesis
        proof (cases "draw choice1 g1 belief")
          case (Inl e)
          with 1(2) False b have "r1 = Inl e" by simp
          moreover from d1 Inl have "draw choice2 g2 belief = Inl e"
            by (simp add: same_result_def)
          with False b have "lm_loop choice2 transform M tau g2 pq_a a y = Some (Inl e)"
            by (subst lm_loop.simps) simp
          ultimately show ?thesis by (simp add: same_result_def)
        next
          case (Inr t)
          obtain q h1 where t: "t = (q, h1)" by (cases t)
          from d1 Inr t obtain h2 where
            d1': "draw choice2 g2 belief = Inr (q, h2)" and h: "sim h1 h2"
            by (auto simp: same_result_def)
          show ?thesis
          proof (cases "lm_step M tau q")
            case (Inl e)
            with 1(2) False b Inr t have "r1 = Inl e" by simp
            moreover from Inl False b d1' have "lm_loop choice2 transform M tau g2 pq_a a y = Some (Inl e)"
              by (subst lm_loop.simps) simp
            ultimately show ?thesis by (simp add: same_result_def)
          next
            case st: (Inr u)
            obtain pa pq_a' where u: "u = (pa, pq_a')" by (cases u)
            note d2 = draw_same [OF ss h, of "transform y pa"]
            show ?thesis
            proof (cases "draw choice1 h1 (transform y pa)")
              case (Inl e)
              with 1(2) False b Inr t st u have "r1 = Inl e" by simp
              moreover from d2 Inl have "draw choice2 h2 (transform y pa) = Inl e"
                by (simp add: same_result_def)
              with False b d1' st u have "lm_loop choice2 transform M tau g2 pq_a a y = Some (Inl e)"
                by (subst lm_loop.simps) simp
              ultimately show ?thesis by (simp add: same_result_def)
            next
              case dr: (Inr v)
              obtain a' k1 where v: "v = (a', k1)" by (cases v)
              from d2 dr v obtain k2 where
                d2': "draw choice2 h2 (transform y pa) = Inr (a', k2)" and k: "sim k1 k2"
                by (auto simp: same_result_def)
              from 1(2) False b Inr t st u dr v have
                call: "loop choice1 transform M tau k1 pq_a' a' (y @ [a']) = Some r1"
                by simp
              from 1(1) [OF call] ss k obtain r2 where
                r2: "lm_loop choice2 transform M tau k2 pq_a' a' (y @ [a']) = Some r2"
                  "same_result sim r1 r2"
                by blast
              from False b d1' st u d2' have
                "lm_loop choice2 transform M tau g2 pq_a a y
                   = lm_loop choice2 transform M tau k2 pq_a' a' (y @ [a'])"
                by (subst lm_loop.simps) simp
              with r2 show ?thesis by simp
            qed
          qed
        qed
      qed
    qed
  qed
qed

lemma lm_loop_same:
  assumes "same_stream choice1 choice2 sim" and "sim g1 g2"
  shows "same_outcome sim (lm_loop choice1 transform M tau g1 pq_a a y)
           (lm_loop choice2 transform M tau g2 pq_a a y)"
proof (rule same_outcomeI)
  fix r1 assume "lm_loop choice1 transform M tau g1 pq_a a y = Some r1"
  from lm_loop_fwd [OF this] assms
  show "\<exists>r2. lm_loop choice2 transform M tau g2 pq_a a y = Some r2 \<and> same_result sim r1 r2"
    by blast
next
  fix r2 assume "lm_loop choice2 transform M tau g2 pq_a a y = Some r2"
  from lm_loop_fwd [OF this, of choice1 "\<lambda>a b. sim b a"] same_stream_sym [OF assms(1)] assms(2)
  show "\<exists>r1. lm_loop choice1 transform M tau g1 pq_a a y = Some r1"
    by blast
qed

lemma same_outcome_cases:
  assumes "same_outcome sim o1 o2"
  obtains (diverge) "o1 = None" "o2 = None"
  | (error) e where "o1 = Some (Inl e)" "o2 = Some (Inl e)"
  | (result) x h1 h2 where "o1 = Some (Inr (x, h1))" "o2 = Some (Inr (x, h2))" "sim h1 h2"
proof (cases o1)
  case None
  with assms have "o2 = None" by (simp add: same_outcome_def)
  with None show ?thesis by (rule diverge)
next
  case (Some r1)
  with assms obtain r2 where r2: "o2 = Some r2" "same_result sim r1 r2"
    by (auto simp: same_outcome_def)
  show ?thesis
  proof (cases r1)
    case (Inl e)
    with r2 Some show ?thesis by (intro error [of e]) (simp_all add: same_result_def)
  next
    case (Inr t)
    obtain x h1 where t: "t = (x, h1)" by (cases t)
    with r2 Inr obtain h2 where "r2 = Inr (x, h2)" "sim h1 h2"
      by (auto simp: same_result_def)
    with r2 Some Inr t show ?thesis by (intro result [of x h1 h2]) simp_all
  qed
qed

lemma same_outcome_simps:
  "same_outcome sim None None"
  "same_outcome sim (Some (Inl e)) (Some (Inl e))"
  "sim h1 h2 \<Longrightarrow> same_outcome sim (Some (Inr (x, h1))) (Some (Inr (x, h2)))"
  by (simp_all add: same_outcome_def same_result_def)

lemma ancestral_same:
  assumes "same_stream choice1 choice2 sim" and "sim g1 g2"
  shows "same_outcome sim (ancestral choice1 str M tau g1 to_string)
           (ancestral choice2 str M tau g2 to_string)"
proof (cases "initial_options M tau")
  case (Inl e)
  then show ?thesis by (simp add: ancestral_def same_outcome_simps)
next
  case (Inr opts)
  note d = draw_same [OF assms, of opts]
  show ?thesis
  proof (cases "draw choice1 g1 opts")
    case (Inl e)
    with d have "draw choice2 g2 opts = Inl e" by (simp add: same_result_def)
    with Inl Inr show ?thesis by (simp add: ancestral_def same_outcome_simps)
  next
    case dr: (Inr t)
    obtain q h1 where t: "t = (q, h1)" by (cases t)
    from d dr t obtain h2 where d2: "draw choice2 g2 opts = Inr (q, h2)" and h: "sim h1 h2"
      by (auto simp: same_result_def)
    from ancestral_loop_same [OF assms(1) h, of M tau "StateObj q" "[]"] show ?thesis
    proof (cases rule: same_outcome_cases)
      case diverge
      with Inr dr t d2 show ?thesis by (simp add: ancestral_def same_outcome_simps)
    next
      case (error e)
      with Inr dr t d2 show ?thesis by (simp add: ancestral_def same_outcome_simps)
    next
      case (result y k1 k2)
      with Inr dr t d2 show ?thesis by (simp add: ancestral_def same_outcome_simps)
    qed
  qed
qed

lemma ancestral_lm_same:
  assumes "same_stream choice1 choice2 sim" and "sim g1 g2"
  shows "same_outcome sim (ancestral_lm choice1 str M tau g1 to_string transform)
           (ancestral_lm choice2 str M tau g2 to_string transform)"
proof (cases "initial_options M tau")
  case (Inl e)
  then show ?thesis by (simp add: ancestral_lm_def same_outcome_simps)
next
  case (Inr belief)
  from lm_loop_same [OF assms, of transform M tau "[(Eps, belief)]" Eps "[Eps]"] show ?thesis
  proof (cases rule: same_outcome_cases)
    case diverge
    with Inr show ?thesis by (simp add: ancestral_lm_def same_outcome_simps)
  next
    case (error e)
    with Inr show ?thesis by (simp add: ancestral_lm_def same_outcome_simps)
  next
    case (result y k1 k2)
    with Inr show ?thesis by (simp add: ancestral_lm_def same_outcome_simps)
  qed
qed

lemma repeat_same:
  assumes "\<And>g1 g2. sim g1 g2 \<Longrightarrow> same_outcome sim (f1 g1) (f2 g2)" and "sim g1 g2"
  shows "same_outcome sim (repeat K f1 g1) (repeat K f2 g2)"
  using assms(2)
proof (induction K arbitrary: g1 g2)
  case 0
  then show ?case by (simp add: same_outcome_simps)
next
  case (Suc K)
  from assms(1) [OF Suc.prems] show ?case
  proof (cases rule: same_outcome_cases)
    case diverge
    then show ?thesis by (simp add: same_outcome_simps)
  next
    case (error e)
    then show ?thesis by (simp add: same_outcome_simps)
  next
    case first: (result x h1 h2)
    from Suc.IH [OF first(3)] show ?thesis
    proof (cases rule: same_outcome_cases)
      case diverge
      with first show ?thesis by (simp add: same_outcome_simps)
    next
      case (error e)
      with first show ?thesis by (simp add: same_outcome_simps)
    next
      case (result xs k1 k2)
      with first show ?thesis by (simp add: same_outcome_simps)
    qed
  qed
qed

lemma sample_same:
  assumes "same_stream choice1 choice2 sim" and "sim (rng S1) (rng S2)"
    and "A S1 = A S2" and "T S1 = T S2"
  shows "same_outcome sim (sample choice1 str S1 K to_string transform lm)
           (sample choice2 str S2 K to_string transform lm)"
proof (cases lm)
  case True
  have "same_outcome sim
      (repeat K (\<lambda>g. ancestral_lm choice1 str (A S2) (T S2) g to_string transform) (rng S1))
      (repeat K (\<lambda>g. ancestral_lm choice2 str (A S2) (T S2) g to_string transform) (rng S2))"
    by (rule repeat_same [OF ancestral_lm_same [OF assms(1)] assms(2)])
  with True assms(3,4) show ?thesis by (simp add: sample_def)
next
  case False
  have "same_outcome sim
      (repeat K (\<lambda>g. ancestral choice1 str (A S2) (T S2) g to_string) (rng S1))
      (repeat K (\<lambda>g. ancestral choice2 str (A S2) (T S2) g to_string) (rng S2))"
    by (rule repeat_same [OF ancestral_same [OF assms(1)] assms(2)])
  with False assms(3,4) show ?thesis by (simp add: sample_def)
qed

text \<open>
  Claim C8. Two runs construct a sampler from the same automaton with the same integer
  seed, each with its own generator object and whatever the system's entropy is, and
  call \<open>sample\<close> with the same count and arguments. When the two seeded generators
  give the same stream, the two runs have the same outcome: both do not return, or
  both raise the same error, or both return the same list of samples, and they leave
  the generators at the same point of the stream, so that later calls agree as well.
\<close>

theorem sample_run_deterministic:
  assumes "same_stream choice1 choice2 sim" and "sim (seeded1 seed) (seeded2 seed)"
  shows "same_outcome sim
           (sample_run push is_probabilistic seeded1 entropy1 choice1 str M tau (Some seed) K
              to_string transform lm)
           (sample_run push is_probabilistic seeded2 entropy2 choice2 str M tau (Some seed) K
              to_string transform lm)"
proof (cases "R M = Real")
  case False
  then show ?thesis
    by (simp add: sample_run_def sampler_init_def same_outcome_simps)
next
  case True
  let ?S1 = "\<lparr>T = tau, A = (if \<not> is_probabilistic M then push M else M), rng = seeded1 seed\<rparr>"
  let ?S2 = "\<lparr>T = tau, A = (if \<not> is_probabilistic M then push M else M), rng = seeded2 seed\<rparr>"
  have "same_outcome sim (sample choice1 str ?S1 K to_string transform lm)
      (sample choice2 str ?S2 K to_string transform lm)"
    by (rule sample_same [OF assms(1)]) (simp_all add: assms(2))
  with True show ?thesis
    by (simp add: sample_run_def sampler_init_def)
qed

lemma M_two_count_step:
  "ancestral_step choice_count M_two 1 g (Suc 0) y = Inr (StateObj 0, y @ [Sym 0], Suc g)"
  "ancestral_step choice_count M_two 1 g 0 y = Inr (StateZero, y, Suc g)"
  by (simp_all add: ancestral_step_def M_two_options draw_def choice_count_def)

lemma M_two_count_sample:
  "ancestral choice_count str M_two 1 g False = Some (Inr (Seq [Sym 0], Suc (Suc (Suc g))))"
proof -
  have "ancestral_loop choice_count M_two 1 (Suc g) (StateObj (Suc 0)) []
      = ancestral_loop choice_count M_two 1 (Suc (Suc g)) (StateObj 0) [Sym 0]"
    using M_two_count_step(1) [of "Suc g" "[]"] by (simp add: ancestral_loop_unfold)
  also have "\<dots> = ancestral_loop choice_count M_two 1 (Suc (Suc (Suc g))) StateZero [Sym 0]"
    using M_two_count_step(2) [of "Suc (Suc g)" "[Sym 0]"] by (simp add: ancestral_loop_unfold)
  finally have "ancestral_loop choice_count M_two 1 (Suc g) (StateObj (Suc 0)) []
      = Some (Inr ([Sym 0], Suc (Suc (Suc g))))"
    by (simp add: ancestral_loop_stop)
  then show ?thesis
    by (simp add: ancestral_def M_two_initial draw_def choice_count_def render_def)
qed

lemma M_two_count_run:
  "sample_run spawn (\<lambda>M. True) seeded entropy choice_count str M_two 1 (Some seed) 2 False transform False
     = Some (Inr ([Seq [Sym 0], Seq [Sym 0]], seeded seed + 6))"
proof -
  have "repeat (Suc (Suc 0)) (\<lambda>g. ancestral choice_count str M_two 1 g False) g
      = Some (Inr ([Seq [Sym 0], Seq [Sym 0]], g + 6))" for g
    by (simp add: M_two_count_sample)
  then show ?thesis
    by (simp add: sample_run_def sampler_init_def sample_def M_two_def numeral_2_eq_2)
qed

theorem sample_run_deterministic_witness:
  "same_stream choice_count choice_count (\<lambda>a b. b = a + 5) \<and>
   (\<lambda>a b. b = a + 5) (nat 7) (nat 7 + 5) \<and>
   sample_run spawn (\<lambda>M. True) nat 0 choice_count (\<lambda>s. ''x'') M_two 1 (Some 7) 2
        False (\<lambda>y p. p) False = Some (Inr ([Seq [Sym 0], Seq [Sym 0]], 13)) \<and>
   sample_run spawn (\<lambda>M. True) (\<lambda>s. nat s + 5) 3 choice_count (\<lambda>s. ''x'') M_two 1 (Some 7) 2
        False (\<lambda>y p. p) False = Some (Inr ([Seq [Sym 0], Seq [Sym 0]], 18)) \<and>
   same_outcome (\<lambda>a b. b = a + 5)
     (sample_run spawn (\<lambda>M. True) nat 0 choice_count (\<lambda>s. ''x'') M_two 1 (Some 7) 2
        False (\<lambda>y p. p) False)
     (sample_run spawn (\<lambda>M. True) (\<lambda>s. nat s + 5) 3 choice_count (\<lambda>s. ''x'') M_two 1 (Some 7) 2
        False (\<lambda>y p. p) False)"
proof -
  have s: "same_stream choice_count choice_count (\<lambda>a b. b = a + 5)"
    by (simp add: same_stream_def choice_count_def)
  have i: "(\<lambda>a b. b = a + 5) (nat 7) (nat 7 + 5)"
    by simp
  note d = sample_run_deterministic [of choice_count choice_count "\<lambda>a b. b = a + 5" nat 7
      "\<lambda>s. nat s + 5", OF s i, of spawn "\<lambda>M. True" 0 "\<lambda>s. ''x''" M_two 1 2 False "\<lambda>y p. p" False 3]
  show ?thesis
    using s d by (simp add: M_two_count_run)
qed


end
